theory Spec2Isabelle
  imports Complex_Main "HOL-Library.AList"
begin

section \<open>Data model\<close>

text \<open>
  A decoded line is a JSON value. Numbers are the rationals the finite doubles denote;
  an object is the list of its key/value pairs in the order of the text.
\<close>

datatype json =
    JNull
  | JBool bool
  | JNum rat
  | JStr string
  | JArr "json list"
  | JObj "(string \<times> json) list"

text \<open>
  The interfaces of \<open>types/messages.ts\<close>. Fields that no function of the parser or the
  analyzer reads (session context, stop reason, tool results' payload) are left out.
\<close>

record SummaryMessage =
  summary :: string
  leafUuid :: string

text \<open>
  Modelled from the spec: \<open>TokenUsage\<close>, declared in \<open>types/base.ts\<close>, which is not among
  the sources. The spec gives the four counts as non-negative integers, each of which
  may be absent and then counts as 0.
\<close>

record TokenUsage =
  input_tokens :: "int option"
  output_tokens :: "int option"
  cache_creation_input_tokens :: "int option"
  cache_read_input_tokens :: "int option"

datatype AssistantContentBlock =
    TextContentBlock string
  | ToolUseContentBlock string string json

datatype ToolResultBlock = ToolResultBlock string string

datatype UserContent =
    ContentString string
  | ContentBlocks "ToolResultBlock list"

record ClaudeAPIResponse =
  model :: string
  blocks :: "AssistantContentBlock list"
  usage :: "TokenUsage option"

text \<open>
  Modelled from the spec: \<open>BaseMessage\<close>, declared in \<open>types/base.ts\<close>, which is not among
  the sources. The spec gives every message a \<open>uuid\<close>, a \<open>parentUuid\<close> that is an
  identifier or \<open>null\<close> (here \<open>None\<close>), and a \<open>timestamp\<close>.
  A \<open>ConversationMessage\<close> is the union of \<open>UserMessage\<close> and \<open>AssistantMessage\<close>: the
  fields of \<open>BaseMessage\<close> are the record's, the discriminant \<open>type\<close> is the constructor
  of \<open>body\<close>, and an assistant message carries its response, \<open>costUSD\<close> and
  \<open>durationMs\<close>. Costs and durations are real numbers: the rounding of doubles is not
  modelled.
\<close>

datatype MessageBody =
    UserMessage UserContent
  | AssistantMessage ClaudeAPIResponse "real option" "real option"

record ConversationMessage =
  uuid :: string
  parentUuid :: "string option"
  timestamp :: string
  body :: MessageBody

record ParseError =
  line :: nat
  error :: string
  content :: string

record ParsedConversation =
  summaries :: "SummaryMessage list"
  messages :: "ConversationMessage list"
  filePath :: string
  lineCount :: nat
  parseErrors :: "ParseError list"

text \<open>A thrown JavaScript error: its class and its \<open>message\<close>.\<close>

datatype js_error = Error string | TypeError string

fun message_of :: "js_error \<Rightarrow> string" where
  "message_of (Error m) = m"
| "message_of (TypeError m) = m"

text \<open>
  What the parser takes from the platform and from the type system, as parameters:
  \<^item> \<open>json_parse\<close> is \<open>JSON.parse\<close>: the decoded value, or the message of the
    \<open>SyntaxError\<close> it throws;
  \<^item> \<open>json_stringify\<close> is \<open>JSON.stringify\<close>;
  \<^item> \<open>in_operator_message\<close> is the message of the \<open>TypeError\<close> that the engine throws
    for \<open>"uuid" in v\<close> when \<open>v\<close> is not an object;
  \<^item> \<open>as_summary\<close> and \<open>as_message\<close> are the unchecked casts behind the type guards:
    how a decoded object is read at its declared type;
  \<^item> \<open>date_time\<close> is \<open>new Date(s).getTime()\<close>, in milliseconds, for a string that
    is a date.
\<close>

record platform =
  json_parse :: "string \<Rightarrow> string + json"
  json_stringify :: "json \<Rightarrow> string"
  in_operator_message :: "json \<Rightarrow> string"
  as_summary :: "json \<Rightarrow> SummaryMessage"
  as_message :: "json \<Rightarrow> ConversationMessage"
  date_time :: "string \<Rightarrow> int"

section \<open>Strings\<close>

text \<open>
  \<open>String.prototype.trim\<close> removes white space and line terminators from both ends.
  A \<open>char\<close> is one code unit below 256; of the code units that \<open>trim\<close> removes,
  these are the ones in that range.
\<close>

definition is_space :: "char \<Rightarrow> bool" where
  "is_space c = (of_char c \<in> {9, 10, 11, 12, 13, 32, 160 :: nat})"

definition trim :: "string \<Rightarrow> string" where
  "trim s = rev (dropWhile is_space (rev (dropWhile is_space s)))"

text \<open>\<open>s.includes(sub)\<close>.\<close>

fun str_includes :: "string \<Rightarrow> string \<Rightarrow> bool" where
  "str_includes [] sub = (sub = [])"
| "str_includes (c # cs) sub = (take (length sub) (c # cs) = sub \<or> str_includes cs sub)"

definition is_digit :: "char \<Rightarrow> bool" where
  "is_digit c = (48 \<le> (of_char c :: nat) \<and> (of_char c :: nat) \<le> 57)"

text \<open>\<open>parseInt(ds, 10)\<close> on a string of decimal digits.\<close>

definition parseInt :: "string \<Rightarrow> nat" where
  "parseInt ds = foldl (\<lambda>n c. 10 * n + (of_char c - 48)) 0 ds"

text \<open>
  \<open>s.match(/line (\d+)/)\<close>: the leftmost place where \<open>line \<close> is followed by a digit,
  and there the longest run of digits; the result is \<open>parseInt\<close> of the group.
\<close>

fun match_line :: "string \<Rightarrow> nat option" where
  "match_line [] = None"
| "match_line (c # cs) =
     (if take 5 (c # cs) = ''line '' \<and> takeWhile is_digit (drop 5 (c # cs)) \<noteq> []
      then Some (parseInt (takeWhile is_digit (drop 5 (c # cs))))
      else match_line cs)"

text \<open>A number in a template literal: its decimal digits.\<close>

fun decimal :: "nat \<Rightarrow> string" where
  "decimal n =
     (if n < 10 then [char_of (48 + n)]
      else decimal (n div 10) @ [char_of (48 + n mod 10)])"

section \<open>Line decoder\<close>

text \<open>
  What an async generator does when it is drained: it yields a value and goes on, it
  returns, or it throws.
\<close>

datatype 'a generated = Return | Yield 'a "'a generated" | Throw js_error

text \<open>
  \<open>readConversationLines\<close>, over the lines that \<open>readline\<close> delivers. \<open>lineNumber\<close> counts
  every line; a line whose \<open>trim\<close> is empty is skipped; a line that \<open>JSON.parse\<close>
  rejects ends the sequence with an \<open>Error\<close>.
\<close>

fun readLines :: "platform \<Rightarrow> nat \<Rightarrow> string list \<Rightarrow> json generated" where
  "readLines P lineNumber [] = Return"
| "readLines P lineNumber (l # ls) =
     (if trim l = [] then readLines P (lineNumber + 1) ls
      else (case json_parse P l of
              Inr entry \<Rightarrow> Yield entry (readLines P (lineNumber + 1) ls)
            | Inl msg \<Rightarrow>
                Throw (Error (''Failed to parse line '' @ decimal (lineNumber + 1) @ '': '' @ msg))))"

definition readConversationLines :: "platform \<Rightarrow> string list \<Rightarrow> json generated" where
  "readConversationLines P ls = readLines P 0 ls"

section \<open>Type guards\<close>

text \<open>
  \<open>isSummaryMessage\<close> checks \<open>typeof entry === "object"\<close> and \<open>entry !== null\<close> before it
  uses \<open>in\<close>; an array is an object without a \<open>type\<close> property.
\<close>

fun isSummaryMessage :: "json \<Rightarrow> bool" where
  "isSummaryMessage (JObj kvs) = (map_of kvs ''type'' = Some (JStr ''summary''))"
| "isSummaryMessage _ = False"

text \<open>
  \<open>isConversationMessage\<close> applies \<open>"uuid" in entry\<close> at once: on \<open>null\<close>, a boolean, a
  number or a string the operator throws a \<open>TypeError\<close>.
\<close>

fun isConversationMessage :: "platform \<Rightarrow> json \<Rightarrow> js_error + bool" where
  "isConversationMessage P (JObj kvs) =
     Inr (map_of kvs ''uuid'' \<noteq> None \<and>
          (map_of kvs ''type'' = Some (JStr ''user'') \<or>
           map_of kvs ''type'' = Some (JStr ''assistant'')))"
| "isConversationMessage P (JArr vs) = Inr False"
| "isConversationMessage P v = Inl (TypeError (in_operator_message P v))"

section \<open>Conversation assembler\<close>

text \<open>
  The \<open>for await\<close> loop of \<open>parseConversation\<close>: the accumulators after the loop, and
  the error that ended it, if one did.
\<close>

fun classify ::
  "platform \<Rightarrow> json generated \<Rightarrow> ParsedConversation \<Rightarrow> ParsedConversation \<times> js_error option"
where
  "classify P Return acc = (acc, None)"
| "classify P (Throw e) acc = (acc, Some e)"
| "classify P (Yield entry rest) acc =
     (let acc1 = acc\<lparr>lineCount := lineCount acc + 1\<rparr> in
      if isSummaryMessage entry
      then classify P rest (acc1\<lparr>summaries := summaries acc1 @ [as_summary P entry]\<rparr>)
      else (case isConversationMessage P entry of
              Inl e \<Rightarrow> (acc1, Some e)
            | Inr True \<Rightarrow>
                classify P rest (acc1\<lparr>messages := messages acc1 @ [as_message P entry]\<rparr>)
            | Inr False \<Rightarrow>
                classify P rest
                  (acc1\<lparr>parseErrors := parseErrors acc1 @
                     [\<lparr>line = lineCount acc1, error = ''Unknown entry type'',
                       content = json_stringify P entry\<rparr>]\<rparr>)))"

text \<open>
  \<open>parseConversation\<close>: the \<open>catch\<close> keeps an error whose message includes
  \<open>Failed to parse line\<close> (as a \<open>ParseError\<close> when a line number is found in it) and
  throws every other error again.
\<close>

definition parseConversation ::
  "platform \<Rightarrow> string \<Rightarrow> string list \<Rightarrow> js_error + ParsedConversation"
where
  "parseConversation P path ls =
     (case classify P (readConversationLines P ls)
             \<lparr>summaries = [], messages = [], filePath = path, lineCount = 0, parseErrors = []\<rparr> of
        (acc, None) \<Rightarrow> Inr acc
      | (acc, Some e) \<Rightarrow>
          if str_includes (message_of e) ''Failed to parse line''
          then (case match_line (message_of e) of
                  Some n \<Rightarrow>
                    Inr (acc\<lparr>parseErrors := parseErrors acc @
                           [\<lparr>line = n, error = message_of e, content = ''''\<rparr>]\<rparr>)
                | None \<Rightarrow> Inr acc)
          else Inl e)"

section \<open>Structural validator\<close>

text \<open>
  The first \<open>forEach\<close> of \<open>parseAndValidateConversation\<close>: \<open>messageIds\<close> and
  \<open>validationErrors\<close> after the messages from \<open>index\<close> on; \<open>n\<close> is
  \<open>result.summaries.length\<close>.
\<close>

fun checkDuplicates ::
  "nat \<Rightarrow> nat \<Rightarrow> ConversationMessage list \<Rightarrow> string set \<times> ParseError list \<Rightarrow>
   string set \<times> ParseError list"
where
  "checkDuplicates n index [] st = st"
| "checkDuplicates n index (m # ms) (messageIds, validationErrors) =
     checkDuplicates n (index + 1) ms
       (insert (uuid m) messageIds,
        if uuid m \<in> messageIds
        then validationErrors @
               [\<lparr>line = index + n + 1, error = ''Duplicate UUID: '' @ uuid m, content = ''''\<rparr>]
        else validationErrors)"

text \<open>
  The second \<open>forEach\<close>. The test \<open>message.parentUuid && ...\<close> is false for \<open>null\<close>
  and for the empty string.
\<close>

fun checkParents ::
  "nat \<Rightarrow> string set \<Rightarrow> nat \<Rightarrow> ConversationMessage list \<Rightarrow> ParseError list \<Rightarrow> ParseError list"
where
  "checkParents n messageIds index [] validationErrors = validationErrors"
| "checkParents n messageIds index (m # ms) validationErrors =
     checkParents n messageIds (index + 1) ms
       (case parentUuid m of
          None \<Rightarrow> validationErrors
        | Some p \<Rightarrow>
            if p \<noteq> [] \<and> p \<notin> messageIds
            then validationErrors @
                   [\<lparr>line = index + n + 1,
                     error = ''Orphaned message: parent UUID '' @ p @ '' not found'',
                     content = ''''\<rparr>]
            else validationErrors)"

text \<open>The part of \<open>parseAndValidateConversation\<close> after the \<open>await\<close>.\<close>

definition validate :: "ParsedConversation \<Rightarrow> ParsedConversation" where
  "validate result =
     (case checkDuplicates (length (summaries result)) 0 (messages result) ({}, []) of
        (messageIds, validationErrors) \<Rightarrow>
          result\<lparr>parseErrors := parseErrors result @
            checkParents (length (summaries result)) messageIds 0 (messages result)
              validationErrors\<rparr>)"

definition parseAndValidateConversation ::
  "platform \<Rightarrow> string \<Rightarrow> string list \<Rightarrow> js_error + ParsedConversation"
where
  "parseAndValidateConversation P path ls =
     (case parseConversation P path ls of
        Inl e \<Rightarrow> Inl e
      | Inr result \<Rightarrow> Inr (validate result))"

section \<open>Statistics aggregator\<close>

text \<open>The object \<open>totalTokens\<close>; its fields \<open>input\<close> and \<open>output\<close> are \<open>inputTotal\<close> and
  \<open>outputTotal\<close> here.\<close>

record TokenTotals =
  inputTotal :: int
  outputTotal :: int
  cacheCreation :: int
  cacheRead :: int

record ConversationStats =
  messageCount :: nat
  userMessageCount :: nat
  assistantMessageCount :: nat
  totalCostUSD :: real
  totalTokens :: TokenTotals
  averageResponseTimeMs :: real
  conversationDurationMs :: int
  toolUsageCount :: nat
  models :: "(string \<times> nat) list"
  branches :: nat

fun isUserMessage :: "ConversationMessage \<Rightarrow> bool" where
  "isUserMessage m = (case body m of UserMessage c \<Rightarrow> True | AssistantMessage r c d \<Rightarrow> False)"

fun isAssistantMessage :: "ConversationMessage \<Rightarrow> bool" where
  "isAssistantMessage m = (case body m of UserMessage c \<Rightarrow> False | AssistantMessage r c d \<Rightarrow> True)"

fun isToolUseContent :: "AssistantContentBlock \<Rightarrow> bool" where
  "isToolUseContent (ToolUseContentBlock i n inp) = True"
| "isToolUseContent (TextContentBlock t) = False"

text \<open>
  \<open>hasToolResult\<close>: the content is an array and some block of it has the type
  \<open>tool_result\<close>, which is the type of every \<open>ToolResultBlock\<close>.
\<close>

fun hasToolResult :: "ConversationMessage \<Rightarrow> bool" where
  "hasToolResult m =
     (case body m of
        UserMessage (ContentBlocks bs) \<Rightarrow> list_ex (\<lambda>b. True) bs
      | _ \<Rightarrow> False)"

text \<open>The fields of an assistant message; the functions below read them after the filter.\<close>

fun response :: "ConversationMessage \<Rightarrow> ClaudeAPIResponse" where
  "response m =
     (case body m of
        AssistantMessage r c d \<Rightarrow> r
      | UserMessage u \<Rightarrow> \<lparr>model = [], blocks = [], usage = None\<rparr>)"

fun costUSD :: "ConversationMessage \<Rightarrow> real option" where
  "costUSD m = (case body m of AssistantMessage r c d \<Rightarrow> c | UserMessage u \<Rightarrow> None)"

fun durationMs :: "ConversationMessage \<Rightarrow> real option" where
  "durationMs m = (case body m of AssistantMessage r c d \<Rightarrow> d | UserMessage u \<Rightarrow> None)"

text \<open>\<open>x ?? 0\<close> and \<open>x || 0\<close> on an optional number.\<close>

fun or0 :: "'a::zero option \<Rightarrow> 'a" where
  "or0 None = 0"
| "or0 (Some v) = v"

definition addUsage :: "ConversationMessage \<Rightarrow> TokenTotals \<Rightarrow> TokenTotals" where
  "addUsage msg acc =
     (let u = usage (response msg) in
      \<lparr>inputTotal = inputTotal acc + or0 (Option.bind u input_tokens),
       outputTotal = outputTotal acc + or0 (Option.bind u output_tokens),
       cacheCreation = cacheCreation acc + or0 (Option.bind u cache_creation_input_tokens),
       cacheRead = cacheRead acc + or0 (Option.bind u cache_read_input_tokens)\<rparr>)"

text \<open>
  A \<open>Map\<close> as the list of its entries in insertion order: \<open>set\<close> on a present key
  keeps the key's place, on a new key it appends. \<open>increment k\<close> is
  \<open>m.set(k, (m.get(k) || 0) + 1)\<close>.
\<close>

definition increment :: "'k \<Rightarrow> ('k \<times> nat) list \<Rightarrow> ('k \<times> nat) list" where
  "increment k m = AList.update k (or0 (map_of m k) + 1) m"

definition calculateConversationStats :: "platform \<Rightarrow> ParsedConversation \<Rightarrow> ConversationStats" where
  "calculateConversationStats P conversation =
     (let msgs = messages conversation in
      if length msgs = 0
      then \<lparr>messageCount = 0, userMessageCount = 0, assistantMessageCount = 0,
            totalCostUSD = 0,
            totalTokens = \<lparr>inputTotal = 0, outputTotal = 0, cacheCreation = 0, cacheRead = 0\<rparr>,
            averageResponseTimeMs = 0, conversationDurationMs = 0, toolUsageCount = 0,
            models = [], branches = 0\<rparr>
      else
        let assistantMessages = filter isAssistantMessage msgs;
            userMessages = filter isUserMessage msgs;
            timestamps = map (\<lambda>m. date_time P (timestamp m)) msgs;
            childrenCount = fold (\<lambda>msg. increment (parentUuid msg)) msgs []
        in \<lparr>messageCount = length msgs,
            userMessageCount = length userMessages,
            assistantMessageCount = length assistantMessages,
            totalCostUSD = fold (\<lambda>msg sum. sum + or0 (costUSD msg)) assistantMessages 0,
            totalTokens =
              fold addUsage assistantMessages
                \<lparr>inputTotal = 0, outputTotal = 0, cacheCreation = 0, cacheRead = 0\<rparr>,
            averageResponseTimeMs =
              (if length assistantMessages > 0
               then fold (\<lambda>msg sum. sum + or0 (durationMs msg)) assistantMessages 0
                      / real (length assistantMessages)
               else 0),
            conversationDurationMs =
              fold max timestamps (hd timestamps) - fold min timestamps (hd timestamps),
            toolUsageCount =
              fold (\<lambda>msg count. count + length (filter isToolUseContent (blocks (response msg))))
                assistantMessages 0
              + length (filter hasToolResult userMessages),
            models = fold (\<lambda>msg. increment (model (response msg))) assistantMessages [],
            branches = length (filter (\<lambda>count. count > 1) (map snd childrenCount))\<rparr>)"

section \<open>Tree builder\<close>

datatype ConversationNode = ConversationNode ConversationMessage "ConversationNode list"

text \<open>
  \<open>childrenMap\<close> after the first \<open>forEach\<close> of \<open>buildConversationTree\<close>: under each
  \<open>parentUuid\<close> (the key \<open>None\<close> is \<open>null\<close>) the messages that carry it, in the order of
  the list. The \<open>messageMap\<close> that the same loop fills is never read.
\<close>

definition addChild ::
  "ConversationMessage \<Rightarrow> (string option \<rightharpoonup> ConversationMessage list) \<Rightarrow>
   (string option \<rightharpoonup> ConversationMessage list)"
where
  "addChild msg childrenMap =
     childrenMap(parentUuid msg \<mapsto>
       (case childrenMap (parentUuid msg) of None \<Rightarrow> [] | Some siblings \<Rightarrow> siblings) @ [msg])"

definition buildChildrenMap ::
  "ConversationMessage list \<Rightarrow> (string option \<rightharpoonup> ConversationMessage list)"
where
  "buildChildrenMap msgs = fold addChild msgs Map.empty"

text \<open>\<open>childrenMap.get(k) || []\<close>.\<close>

definition childrenOf ::
  "(string option \<rightharpoonup> ConversationMessage list) \<Rightarrow> string option \<Rightarrow> ConversationMessage list"
where
  "childrenOf childrenMap k = (case childrenMap k of None \<Rightarrow> [] | Some cs \<Rightarrow> cs)"

text \<open>
  \<open>buildNode\<close> recurses with no guard; the first argument bounds the depth of the calls,
  and \<open>None\<close> is a recursion that goes deeper than the bound.
\<close>

fun buildNode ::
  "nat \<Rightarrow> (string option \<rightharpoonup> ConversationMessage list) \<Rightarrow> ConversationMessage \<Rightarrow>
   ConversationNode option"
where
  "buildNode 0 childrenMap message = None"
| "buildNode (Suc depth) childrenMap message =
     map_option (ConversationNode message)
       (those (map (buildNode depth childrenMap) (childrenOf childrenMap (Some (uuid message)))))"

definition buildConversationTree ::
  "nat \<Rightarrow> ConversationMessage list \<Rightarrow> ConversationNode list option"
where
  "buildConversationTree depth msgs =
     (let childrenMap = buildChildrenMap msgs;
          roots = childrenOf childrenMap None
      in those (map (buildNode depth childrenMap) roots))"

section \<open>Active-branch resolver\<close>

text \<open>\<open>new Map(messages.map((m) => [m.uuid, m]))\<close>: a later entry replaces an earlier one.\<close>

definition buildMessageMap :: "ConversationMessage list \<Rightarrow> (string \<rightharpoonup> ConversationMessage)" where
  "buildMessageMap msgs = fold (\<lambda>m messageMap. messageMap(uuid m \<mapsto> m)) msgs Map.empty"

text \<open>The \<open>while\<close> loop of \<open>getActiveBranch\<close>; \<open>None\<close> is a loop that never ends.\<close>

partial_function (option) traceBack ::
  "(string \<rightharpoonup> ConversationMessage) \<Rightarrow> ConversationMessage list \<Rightarrow> string option \<Rightarrow>
   ConversationMessage list option"
where
  "traceBack messageMap branch currentUuid =
     (case currentUuid of
        None \<Rightarrow> Some branch
      | Some u \<Rightarrow>
          (case messageMap u of
             None \<Rightarrow> Some branch
           | Some message \<Rightarrow> traceBack messageMap (message # branch) (parentUuid message)))"

declare traceBack.simps [code]

definition getActiveBranch :: "ParsedConversation \<Rightarrow> ConversationMessage list option" where
  "getActiveBranch conversation =
     (case summaries conversation of
        [] \<Rightarrow> Some []
      | s # ss \<Rightarrow>
          if length (messages conversation) = 0 then Some []
          else
            let messageMap = buildMessageMap (messages conversation) in
            if messageMap (leafUuid s) = None then Some (messages conversation)
            else traceBack messageMap [] (Some (leafUuid s)))"

section \<open>Notions the properties are stated with\<close>

text \<open>The values a drained generator has yielded, and the error that ended it.\<close>

fun yielded :: "'a generated \<Rightarrow> 'a list" where
  "yielded Return = []"
| "yielded (Throw e) = []"
| "yielded (Yield x g) = x # yielded g"

fun thrown :: "'a generated \<Rightarrow> js_error option" where
  "thrown Return = None"
| "thrown (Throw e) = Some e"
| "thrown (Yield x g) = thrown g"

definition nonBlank :: "string list \<Rightarrow> string list" where
  "nonBlank ls = filter (\<lambda>l. trim l \<noteq> []) ls"

definition decodes :: "platform \<Rightarrow> string \<Rightarrow> bool" where
  "decodes P l = (case json_parse P l of Inr v \<Rightarrow> True | Inl msg \<Rightarrow> False)"

text \<open>The values on which \<open>in\<close> is defined: objects and arrays.\<close>

fun isObject :: "json \<Rightarrow> bool" where
  "isObject (JObj kvs) = True"
| "isObject (JArr vs) = True"
| "isObject v = False"

definition decodesToObject :: "platform \<Rightarrow> string \<Rightarrow> bool" where
  "decodesToObject P l = (case json_parse P l of Inr v \<Rightarrow> isObject v | Inl msg \<Rightarrow> False)"

text \<open>
  The three buckets of the assembler, for an entry on which the guards return: a summary,
  a message, or neither; and the error written for the entry \<open>snd iv\<close> when \<open>fst iv\<close>
  entries came before it.
\<close>

definition recognisedMessage :: "platform \<Rightarrow> json \<Rightarrow> bool" where
  "recognisedMessage P v = (\<not> isSummaryMessage v \<and> isConversationMessage P v = Inr True)"

definition unrecognised :: "platform \<Rightarrow> json \<Rightarrow> bool" where
  "unrecognised P v = (\<not> isSummaryMessage v \<and> isConversationMessage P v = Inr False)"

definition unknownEntry :: "platform \<Rightarrow> nat \<times> json \<Rightarrow> ParseError" where
  "unknownEntry P iv =
     \<lparr>line = fst iv + 1, error = ''Unknown entry type'', content = json_stringify P (snd iv)\<rparr>"

text \<open>The errors that the two passes of the validator write for the message at \<open>index\<close>.\<close>

definition duplicateError :: "nat \<Rightarrow> nat \<Rightarrow> ConversationMessage \<Rightarrow> ParseError" where
  "duplicateError n index m =
     \<lparr>line = index + n + 1, error = ''Duplicate UUID: '' @ uuid m, content = ''''\<rparr>"

definition orphanError :: "nat \<Rightarrow> nat \<Rightarrow> ConversationMessage \<Rightarrow> ParseError" where
  "orphanError n index m =
     \<lparr>line = index + n + 1,
      error = ''Orphaned message: parent UUID '' @ the (parentUuid m) @ '' not found'',
      content = ''''\<rparr>"

text \<open>The message at \<open>index\<close> repeats the identifier of an earlier message.\<close>

definition repeated :: "ConversationMessage list \<Rightarrow> nat \<Rightarrow> bool" where
  "repeated msgs index = (uuid (msgs ! index) \<in> uuid ` set (take index msgs))"

text \<open>
  An orphan: the parent identifier is not \<open>null\<close> and is no message's identifier. The
  validator flags an orphan whose parent identifier is not the empty string.
\<close>

definition orphaned :: "ConversationMessage list \<Rightarrow> ConversationMessage \<Rightarrow> bool" where
  "orphaned msgs m =
     (case parentUuid m of None \<Rightarrow> False | Some p \<Rightarrow> p \<notin> uuid ` set msgs)"

definition flagged :: "ConversationMessage list \<Rightarrow> ConversationMessage \<Rightarrow> bool" where
  "flagged msgs m =
     (case parentUuid m of None \<Rightarrow> False | Some p \<Rightarrow> p \<noteq> [] \<and> p \<notin> uuid ` set msgs)"

text \<open>
  The errors of the two passes for a conversation: one for every index whose message
  repeats an earlier identifier, then one for every index whose message is flagged.
\<close>

definition duplicateErrors :: "ParsedConversation \<Rightarrow> ParseError list" where
  "duplicateErrors r =
     map (\<lambda>i. duplicateError (length (summaries r)) i (messages r ! i))
       (filter (repeated (messages r)) [0..<length (messages r)])"

definition orphanErrors :: "ParsedConversation \<Rightarrow> ParseError list" where
  "orphanErrors r =
     map (\<lambda>i. orphanError (length (summaries r)) i (messages r ! i))
       (filter (\<lambda>i. flagged (messages r) (messages r ! i)) [0..<length (messages r)])"

text \<open>
  The tests of the two passes in the middle of the list: the identifier is in \<open>ids\<close> or
  earlier in \<open>ms\<close>; the parent identifier is not empty and not in \<open>ids\<close>.
\<close>

definition seenBefore :: "string set \<Rightarrow> ConversationMessage list \<Rightarrow> nat \<Rightarrow> bool" where
  "seenBefore ids ms = (\<lambda>j. uuid (ms ! j) \<in> ids \<union> uuid ` set (take j ms))"

definition missing :: "string set \<Rightarrow> ConversationMessage \<Rightarrow> bool" where
  "missing ids = (\<lambda>m. case parentUuid m of None \<Rightarrow> False | Some p \<Rightarrow> p \<noteq> [] \<and> p \<notin> ids)"

text \<open>The nodes of a tree and of a forest, at all depths.\<close>

fun countNodes :: "ConversationNode \<Rightarrow> nat" where
  "countNodes (ConversationNode m cs) = 1 + sum_list (map countNodes cs)"

definition countForest :: "ConversationNode list \<Rightarrow> nat" where
  "countForest ns = sum_list (map countNodes ns)"

text \<open>
  \<open>level msgs d m\<close>: following \<open>parentUuid\<close> from \<open>m\<close>, each step to a message of the list
  that carries the identifier, the \<open>d\<close>-th message reached is a root. \<open>rooted\<close>: some
  chain of parents of \<open>m\<close> ends at a root.
\<close>

fun level :: "ConversationMessage list \<Rightarrow> nat \<Rightarrow> ConversationMessage \<Rightarrow> bool" where
  "level msgs 0 m = (parentUuid m = None)"
| "level msgs (Suc d) m =
     list_ex (\<lambda>y. parentUuid m = Some (uuid y) \<and> level msgs d y) msgs"

definition rooted :: "ConversationMessage list \<Rightarrow> ConversationMessage \<Rightarrow> bool" where
  "rooted msgs m = list_ex (\<lambda>d. level msgs d m) [0..<length msgs]"

text \<open>
  The forest by layers: the roots, the messages attached to a message of the layer
  before, and the number of messages in the first \<open>f\<close> layers from a list on.
\<close>

definition rootsOf :: "ConversationMessage list \<Rightarrow> ConversationMessage list" where
  "rootsOf msgs = filter (\<lambda>m. parentUuid m = None) msgs"

definition attached :: "ConversationMessage list \<Rightarrow> ConversationMessage \<Rightarrow> ConversationMessage list" where
  "attached msgs m = filter (\<lambda>x. parentUuid x = Some (uuid m)) msgs"

definition nextLayer :: "ConversationMessage list \<Rightarrow> ConversationMessage list \<Rightarrow> ConversationMessage list" where
  "nextLayer msgs L = concat (map (attached msgs) L)"

fun layerFrom :: "ConversationMessage list \<Rightarrow> nat \<Rightarrow> ConversationMessage list \<Rightarrow> ConversationMessage list" where
  "layerFrom msgs 0 L = L"
| "layerFrom msgs (Suc d) L = layerFrom msgs d (nextLayer msgs L)"

fun nodesWithin :: "ConversationMessage list \<Rightarrow> nat \<Rightarrow> ConversationMessage list \<Rightarrow> nat" where
  "nodesWithin msgs 0 L = 0"
| "nodesWithin msgs (Suc f) L = length L + nodesWithin msgs f (nextLayer msgs L)"

text \<open>
  The messages of the nodes of a tree and of a forest, at all depths, and the messages
  in the first \<open>f\<close> layers from a list on.
\<close>

fun nodeMessages :: "ConversationNode \<Rightarrow> ConversationMessage list" where
  "nodeMessages (ConversationNode m cs) = m # concat (map nodeMessages cs)"

definition forestMessages :: "ConversationNode list \<Rightarrow> ConversationMessage list" where
  "forestMessages ns = concat (map nodeMessages ns)"

fun messagesWithin ::
  "ConversationMessage list \<Rightarrow> nat \<Rightarrow> ConversationMessage list \<Rightarrow> ConversationMessage set" where
  "messagesWithin msgs 0 L = {}"
| "messagesWithin msgs (Suc f) L = set L \<union> messagesWithin msgs f (nextLayer msgs L)"

text \<open>The parent links of a conversation, as a relation from identifier to parent identifier.\<close>

definition parentLinks :: "ConversationMessage list \<Rightarrow> (string \<times> string) set" where
  "parentLinks msgs =
     set (concat (map (\<lambda>m. case parentUuid m of None \<Rightarrow> [] | Some p \<Rightarrow> [(uuid m, p)]) msgs))"

text \<open>The last message of the list that carries the identifier \<open>u\<close>.\<close>

definition lastWith :: "ConversationMessage list \<Rightarrow> string \<Rightarrow> ConversationMessage option" where
  "lastWith msgs u = find (\<lambda>m. uuid m = u) (rev msgs)"

text \<open>The distinct parent identifiers that more than one message carries.\<close>

definition forkPoints :: "ConversationMessage list \<Rightarrow> string option set" where
  "forkPoints msgs = {p. 1 < length (filter (\<lambda>m. parentUuid m = p) msgs)}"

section \<open>Example inputs\<close>

text \<open>
  A platform for the examples: the lines of the examples with the values that
  \<open>JSON.parse\<close> gives for them, the text that \<open>JSON.stringify\<close> gives back, the message
  of V8 for \<open>in\<close> on a primitive, and the identifier fields of a decoded message.
\<close>

definition exampleLines :: "(string \<times> json) list" where
  \<open>exampleLines =
     [(''null'', JNull),
      (''"Failed to parse line 7"'', JStr ''Failed to parse line 7''),
      (''{"type":"system"}'', JObj [(''type'', JStr ''system'')]),
      (''{"type":"summary","summary":"s","leafUuid":"m2"}'',
         JObj [(''type'', JStr ''summary''), (''summary'', JStr ''s''),
               (''leafUuid'', JStr ''m2'')]),
      (''{"type":"user","uuid":"m1","parentUuid":null}'',
         JObj [(''type'', JStr ''user''), (''uuid'', JStr ''m1''), (''parentUuid'', JNull)]),
      (''{"type":"assistant","uuid":"m2","parentUuid":"m1"}'',
         JObj [(''type'', JStr ''assistant''), (''uuid'', JStr ''m2''),
               (''parentUuid'', JStr ''m1'')]),
      (''{"type":"user","uuid":"m2","parentUuid":"m1"}'',
         JObj [(''type'', JStr ''user''), (''uuid'', JStr ''m2''),
               (''parentUuid'', JStr ''m1'')]),
      (''{"type":"user","uuid":"o1","parentUuid":"gone"}'',
         JObj [(''type'', JStr ''user''), (''uuid'', JStr ''o1''),
               (''parentUuid'', JStr ''gone'')]),
      (''{"type":"user","uuid":"o2","parentUuid":"gone"}'',
         JObj [(''type'', JStr ''user''), (''uuid'', JStr ''o2''),
               (''parentUuid'', JStr ''gone'')])]\<close>

fun exampleText :: "json \<Rightarrow> string" where
  "exampleText JNull = ''null''"
| "exampleText (JStr s) = s"
| "exampleText (JBool b) = (if b then ''true'' else ''false'')"
| "exampleText v = (case find (\<lambda>(t, w). w = v) exampleLines of Some (t, w) \<Rightarrow> t | None \<Rightarrow> [])"

fun exampleString :: "json option \<Rightarrow> string" where
  "exampleString (Some (JStr s)) = s"
| "exampleString v = []"

fun exampleMessage :: "json \<Rightarrow> ConversationMessage" where
  "exampleMessage v =
     (case v of
        JObj kvs \<Rightarrow>
          \<lparr>uuid = exampleString (map_of kvs ''uuid''),
           parentUuid = (case map_of kvs ''parentUuid'' of Some (JStr p) \<Rightarrow> Some p | _ \<Rightarrow> None),
           timestamp = exampleString (map_of kvs ''timestamp''),
           body = (if map_of kvs ''type'' = Some (JStr ''assistant'')
                   then AssistantMessage \<lparr>model = [], blocks = [], usage = None\<rparr> None None
                   else UserMessage (ContentString []))\<rparr>
      | _ \<Rightarrow> \<lparr>uuid = [], parentUuid = None, timestamp = [], body = UserMessage (ContentString [])\<rparr>)"

fun exampleSummary :: "json \<Rightarrow> SummaryMessage" where
  "exampleSummary v =
     (case v of
        JObj kvs \<Rightarrow>
          \<lparr>summary = exampleString (map_of kvs ''summary''),
           leafUuid = exampleString (map_of kvs ''leafUuid'')\<rparr>
      | _ \<Rightarrow> \<lparr>summary = [], leafUuid = []\<rparr>)"

definition examplePlatform :: platform where
  \<open>examplePlatform =
     \<lparr>json_parse =
        (\<lambda>l. case map_of exampleLines l of Some v \<Rightarrow> Inr v | None \<Rightarrow> Inl ''Unexpected token''),
      json_stringify =
        (\<lambda>v. case find (\<lambda>(t, w). w = v) exampleLines of Some (t, w) \<Rightarrow> t | None \<Rightarrow> []),
      in_operator_message =
        (\<lambda>v. ''Cannot use 'in' operator to search for 'uuid' in '' @ exampleText v),
      as_summary = exampleSummary,
      as_message = exampleMessage,
      date_time = (\<lambda>s. 0)\<rparr>\<close>

text \<open>Messages for the examples of the analyzer: an identifier and a parent identifier.\<close>

definition msg :: "string \<Rightarrow> string option \<Rightarrow> ConversationMessage" where
  "msg u p = \<lparr>uuid = u, parentUuid = p, timestamp = [], body = UserMessage (ContentString [])\<rparr>"

definition conv :: "SummaryMessage list \<Rightarrow> ConversationMessage list \<Rightarrow> ParsedConversation" where
  "conv ss ms = \<lparr>summaries = ss, messages = ms, filePath = [], lineCount = 0, parseErrors = []\<rparr>"

text \<open>A branching root, a grandchild and an orphan.\<close>

definition exampleMessages :: "ConversationMessage list" where
  "exampleMessages =
     [msg ''r'' None, msg ''a'' (Some ''r''), msg ''x'' (Some ''r''), msg ''b'' (Some ''a''),
      msg ''o'' (Some ''gone'')]"

text \<open>A conversation that branches at its root; the summary names the leaf \<open>b\<close>.\<close>

definition exampleConversation :: ParsedConversation where
  "exampleConversation =
     conv [\<lparr>summary = ''s'', leafUuid = ''b''\<rparr>]
       [msg ''r'' None, msg ''a'' (Some ''r''), msg ''x'' (Some ''r''), msg ''b'' (Some ''a'')]"

section \<open>The line decoder and the assembler\<close>

lemma readLines_all_decode:
  "\<forall>l \<in> set (nonBlank ls). decodes P l \<Longrightarrow>
   length (yielded (readLines P n ls)) = length (nonBlank ls) \<and> thrown (readLines P n ls) = None"
  by (induction ls arbitrary: n) (auto simp: nonBlank_def decodes_def split: sum.splits if_splits)

lemma yielded_readLines:
  "\<forall>l \<in> set (nonBlank ls). decodes P l \<Longrightarrow>
   map Inr (yielded (readLines P n ls)) = map (json_parse P) (nonBlank ls)"
  by (induction ls arbitrary: n) (auto simp: nonBlank_def decodes_def split: sum.splits if_splits)

lemma isConversationMessage_object:
  "isObject v \<Longrightarrow> isConversationMessage P v = Inr True \<or> isConversationMessage P v = Inr False"
  by (cases v) auto

text \<open>
  When every entry is an object or an array and the decoder does not throw, the loop of
  \<open>parseConversation\<close> ends normally: every entry is counted and put in one bucket, in
  the order of the lines.
\<close>

lemma classify_objects:
  "\<forall>v \<in> set (yielded g). isObject v \<Longrightarrow> thrown g = None \<Longrightarrow>
   classify P g acc =
     (\<lparr>summaries = summaries acc @ map (as_summary P) (filter isSummaryMessage (yielded g)),
       messages = messages acc @ map (as_message P) (filter (recognisedMessage P) (yielded g)),
       filePath = filePath acc,
       lineCount = lineCount acc + length (yielded g),
       parseErrors = parseErrors acc @
         map (unknownEntry P)
           (filter (\<lambda>iv. unrecognised P (snd iv)) (enumerate (lineCount acc) (yielded g)))\<rparr>, None)"
proof (induction g arbitrary: acc)
  case Return
  then show ?case by simp
next
  case (Yield v g)
  from Yield.prems have obj: "isObject v" by simp
  from Yield.prems have rest: "\<forall>v \<in> set (yielded g). isObject v" "thrown g = None" by simp_all
  note IH = Yield.IH [OF rest]
  from isConversationMessage_object [OF obj, of P]
  show ?case
    by (auto simp: IH Let_def recognisedMessage_def unrecognised_def unknownEntry_def)
next
  case (Throw e)
  then show ?case by simp
qed

lemma yielded_objects:
  assumes "\<forall>l \<in> set (nonBlank ls). decodesToObject P l"
  shows "\<forall>v \<in> set (yielded (readLines P n ls)). isObject v"
proof -
  from assms have dec: "\<forall>l \<in> set (nonBlank ls). decodes P l"
    by (auto simp: decodesToObject_def decodes_def split: sum.splits)
  have "Inr ` set (yielded (readLines P n ls)) = json_parse P ` set (nonBlank ls)"
    using yielded_readLines [OF dec, of n] by (metis set_map)
  with assms show ?thesis
    by (fastforce simp: decodesToObject_def image_iff split: sum.splits)
qed

text \<open>
  On a file whose non-blank lines all decode to objects or arrays, \<open>parseConversation\<close>
  returns, \<open>lineCount\<close> is the number of non-blank lines, and every entry that is
  neither a summary nor a message has its \<open>ParseError\<close> with the serialized entry.
\<close>

lemma parseConversation_objects:
  assumes "\<forall>l \<in> set (nonBlank ls). decodesToObject P l"
  shows "parseConversation P path ls =
     Inr \<lparr>summaries = map (as_summary P) (filter isSummaryMessage (yielded (readLines P 0 ls))),
          messages = map (as_message P) (filter (recognisedMessage P) (yielded (readLines P 0 ls))),
          filePath = path,
          lineCount = length (nonBlank ls),
          parseErrors =
            map (unknownEntry P)
              (filter (\<lambda>iv. unrecognised P (snd iv)) (enumerate 0 (yielded (readLines P 0 ls))))\<rparr>"
proof -
  from assms have dec: "\<forall>l \<in> set (nonBlank ls). decodes P l"
    by (auto simp: decodesToObject_def decodes_def split: sum.splits)
  note a = readLines_all_decode [OF dec, of 0]
  note b = yielded_objects [OF assms, of 0]
  from a have thr: "thrown (readLines P 0 ls) = None" by simp
  show ?thesis
    by (simp add: parseConversation_def readConversationLines_def classify_objects [OF b thr] a)
qed

text \<open>
  On a file of one line that decodes to \<open>null\<close>, a boolean, a number or a string,
  \<open>parseConversation\<close> throws the \<open>TypeError\<close> of \<open>in\<close>, whatever the platform, unless
  the engine's message happens to include \<open>Failed to parse line\<close>.
\<close>

lemma parseConversation_primitive_throws:
  assumes "trim l \<noteq> []" and "json_parse P l = Inr v" and "\<not> isObject v"
    and "\<not> str_includes (in_operator_message P v) ''Failed to parse line''"
  shows "parseConversation P path [l] = Inl (TypeError (in_operator_message P v))"
proof -
  from assms(3) have "\<not> isSummaryMessage v"
    and "isConversationMessage P v = Inl (TypeError (in_operator_message P v))"
    by (cases v; simp)+
  with assms(1,2,4) show ?thesis
    by (simp add: parseConversation_def readConversationLines_def)
qed

text \<open>
  C1. A line that decodes to a value that is no summary, user or assistant entry is to be
  recorded as a \<open>ParseError\<close> with the serialized entry, and \<open>parseConversation\<close> is to
  return. For objects and arrays it does (\<open>parseConversation_objects\<close>). For the line
  \<open>null\<close> it does not (\<open>parseConversation_primitive_throws\<close>): \<open>isConversationMessage\<close>
  applies \<open>in\<close> to \<open>null\<close>, the \<open>TypeError\<close> has no \<open>Failed to parse line\<close> in its
  message, and the \<open>catch\<close> throws it again to the caller.
\<close>

theorem parseConversation_null_line_throws:
  "parseConversation examplePlatform ''log.jsonl'' [''null''] =
     Inl (TypeError ''Cannot use 'in' operator to search for 'uuid' in null'')"
  by (simp add: parseConversation_def readConversationLines_def examplePlatform_def
      exampleLines_def trim_def is_space_def)

text \<open>
  C9. With no line that fails to decode, the decoder yields one entry per non-blank line
  (\<open>readLines_all_decode\<close>), and \<open>lineCount\<close> is that number when the lines decode to
  objects or arrays (\<open>parseConversation_objects\<close>). On a line that decodes to a string,
  \<open>in\<close> throws inside the loop; here the message of the \<open>TypeError\<close> quotes the string,
  the \<open>catch\<close> takes it for a decode failure of line 7, and \<open>parseConversation\<close> returns
  \<open>lineCount = 1\<close> for a file of two non-blank lines that both decode.
\<close>

theorem parseConversation_lineCount_short:
  \<open>decodes examplePlatform ''"Failed to parse line 7"'' \<and>
   decodes examplePlatform ''{"type":"system"}'' \<and>
   length (nonBlank [''"Failed to parse line 7"'', ''{"type":"system"}'']) = 2 \<and>
   length (yielded (readConversationLines examplePlatform
       [''"Failed to parse line 7"'', ''{"type":"system"}''])) = 2 \<and>
   parseConversation examplePlatform ''log.jsonl''
       [''"Failed to parse line 7"'', ''{"type":"system"}''] =
     Inr \<lparr>summaries = [], messages = [], filePath = ''log.jsonl'', lineCount = 1,
          parseErrors =
            [\<lparr>line = 7,
              error = ''Cannot use 'in' operator to search for 'uuid' in Failed to parse line 7'',
              content = []\<rparr>]\<rparr>\<close>
  by (simp add: parseConversation_def readConversationLines_def examplePlatform_def
      exampleLines_def trim_def is_space_def decodes_def nonBlank_def is_digit_def parseInt_def)

section \<open>The active-branch resolver\<close>

lemma fold_messageMap_None:
  "(fold (\<lambda>m messageMap. messageMap(uuid m \<mapsto> m)) msgs m0 u = None) =
   (m0 u = None \<and> u \<notin> uuid ` set msgs)"
  by (induction msgs arbitrary: m0) auto

lemma buildMessageMap_None: "(buildMessageMap msgs u = None) = (u \<notin> uuid ` set msgs)"
  by (simp add: buildMessageMap_def fold_messageMap_None)

text \<open>
  C6. With at least one summary and one message, when no message carries the first
  summary's \<open>leafUuid\<close>, \<open>getActiveBranch\<close> returns the list of messages as it is; when
  there is no summary or no message, it returns the empty list.
\<close>

theorem getActiveBranch_fallbacks:
  "(summaries c \<noteq> [] \<and> messages c \<noteq> [] \<and>
      (\<forall>m \<in> set (messages c). uuid m \<noteq> leafUuid (hd (summaries c)))
      \<longrightarrow> getActiveBranch c = Some (messages c)) \<and>
   (summaries c = [] \<or> messages c = [] \<longrightarrow> getActiveBranch c = Some [])"
  by (auto simp: getActiveBranch_def buildMessageMap_None split: list.splits)

theorem getActiveBranch_fallbacks_witness:
  "getActiveBranch
     (conv [\<lparr>summary = ''s'', leafUuid = ''zz''\<rparr>] [msg ''m1'' None, msg ''m2'' (Some ''m1'')])
     = Some [msg ''m1'' None, msg ''m2'' (Some ''m1'')] \<and>
   getActiveBranch (conv [] [msg ''m1'' None]) = Some [] \<and>
   getActiveBranch (conv [\<lparr>summary = ''s'', leafUuid = ''m1''\<rparr>] []) = Some []"
  using getActiveBranch_fallbacks
      [of "conv [\<lparr>summary = ''s'', leafUuid = ''zz''\<rparr>] [msg ''m1'' None, msg ''m2'' (Some ''m1'')]"]
    getActiveBranch_fallbacks [of "conv [] [msg ''m1'' None]"]
    getActiveBranch_fallbacks [of "conv [\<lparr>summary = ''s'', leafUuid = ''m1''\<rparr>] []"]
  by (simp add: conv_def msg_def)

section \<open>The statistics aggregator\<close>

text \<open>
  C7. For a conversation with no message, \<open>calculateConversationStats\<close> returns the
  baseline: every count, total and time is 0, \<open>models\<close> is the empty map and
  \<open>branches\<close> is 0.
\<close>

theorem calculateConversationStats_empty:
  "messages c = [] \<Longrightarrow>
   calculateConversationStats P c =
     \<lparr>messageCount = 0, userMessageCount = 0, assistantMessageCount = 0, totalCostUSD = 0,
      totalTokens = \<lparr>inputTotal = 0, outputTotal = 0, cacheCreation = 0, cacheRead = 0\<rparr>,
      averageResponseTimeMs = 0, conversationDurationMs = 0, toolUsageCount = 0,
      models = [], branches = 0\<rparr>"
  by (simp add: calculateConversationStats_def)

theorem calculateConversationStats_empty_witness:
  "messages (conv [\<lparr>summary = ''s'', leafUuid = ''m2''\<rparr>] []) = [] \<and>
   calculateConversationStats examplePlatform (conv [\<lparr>summary = ''s'', leafUuid = ''m2''\<rparr>] []) =
     \<lparr>messageCount = 0, userMessageCount = 0, assistantMessageCount = 0, totalCostUSD = 0,
      totalTokens = \<lparr>inputTotal = 0, outputTotal = 0, cacheCreation = 0, cacheRead = 0\<rparr>,
      averageResponseTimeMs = 0, conversationDurationMs = 0, toolUsageCount = 0,
      models = [], branches = 0\<rparr>"
  using calculateConversationStats_empty
      [of "conv [\<lparr>summary = ''s'', leafUuid = ''m2''\<rparr>] []" examplePlatform]
  by (simp add: conv_def)

section \<open>The structural validator\<close>

lemma upt_Suc_shift: "[0..<Suc k] = 0 # map Suc [0..<k]"
  by (simp add: upt_conv_Cons map_Suc_upt del: upt_Suc)

lemma seenBefore_Cons:
  "filter (seenBefore ids (m # ms)) [0..<Suc (length ms)] =
   (if uuid m \<in> ids then [0] else []) @
   map Suc (filter (seenBefore (insert (uuid m) ids) ms) [0..<length ms])"
proof -
  have "\<And>j. seenBefore ids (m # ms) (Suc j) = seenBefore (insert (uuid m) ids) ms j"
    by (auto simp: seenBefore_def)
  moreover have "seenBefore ids (m # ms) 0 = (uuid m \<in> ids)"
    by (simp add: seenBefore_def)
  ultimately show ?thesis
    unfolding upt_Suc_shift by (simp add: filter_map o_def)
qed

lemma checkDuplicates_eq:
  "checkDuplicates n i ms (ids, errs) =
     (ids \<union> uuid ` set ms,
      errs @ map (\<lambda>j. duplicateError n (i + j) (ms ! j))
               (filter (seenBefore ids ms) [0..<length ms]))"
proof (induction ms arbitrary: i ids errs)
  case Nil
  then show ?case by simp
next
  case (Cons m ms)
  show ?case
    unfolding length_Cons seenBefore_Cons
    by (simp add: Cons.IH duplicateError_def o_def)
qed

lemma checkParents_eq:
  "checkParents n ids i ms errs =
     errs @ map (\<lambda>j. orphanError n (i + j) (ms ! j))
              (filter (\<lambda>j. missing ids (ms ! j)) [0..<length ms])"
proof (induction ms arbitrary: i errs)
  case Nil
  then show ?case by simp
next
  case (Cons m ms)
  show ?case
    unfolding length_Cons upt_Suc_shift
    by (auto simp: Cons.IH orphanError_def missing_def filter_map o_def split: option.splits)
qed

lemma validate_eq:
  "validate r = r\<lparr>parseErrors := parseErrors r @ duplicateErrors r @ orphanErrors r\<rparr>"
proof -
  have a: "seenBefore {} (messages r) = repeated (messages r)"
    by (auto simp: seenBefore_def repeated_def fun_eq_iff)
  have b: "missing (uuid ` set (messages r)) = flagged (messages r)"
    by (auto simp: missing_def flagged_def fun_eq_iff)
  show ?thesis
    by (simp add: validate_def checkDuplicates_eq checkParents_eq duplicateErrors_def
        orphanErrors_def a b)
qed

lemma length_filter_eq_distinct:
  "distinct js \<Longrightarrow> length (filter (\<lambda>j. j = i) js) = (if i \<in> set js then 1 else 0)"
  by (induction js) auto

lemma length_filter_nth:
  "length (filter (\<lambda>i. Q (ms ! i)) [0..<length ms]) = length (filter Q ms)"
proof -
  have "filter Q (map (\<lambda>i. ms ! i) [0..<length ms]) = map (\<lambda>i. ms ! i) (filter (\<lambda>i. Q (ms ! i)) [0..<length ms])"
    by (simp add: filter_map o_def)
  then have "length (filter Q (map (\<lambda>i. ms ! i) [0..<length ms])) = length (filter (\<lambda>i. Q (ms ! i)) [0..<length ms])"
    by simp
  then show ?thesis by (simp add: map_nth)
qed

lemma count_seenBefore:
  "length (filter (\<lambda>j. uuid (ms ! j) = u) (filter (seenBefore ids ms) [0..<length ms])) =
   (if u \<in> ids then length (filter (\<lambda>m. uuid m = u) ms)
    else length (filter (\<lambda>m. uuid m = u) ms) - 1)"
proof (induction ms arbitrary: ids)
  case Nil
  then show ?case by simp
next
  case (Cons m ms)
  show ?case
    unfolding length_Cons seenBefore_Cons
    by (simp add: filter_map o_def Cons.IH del: filter_filter)
qed

lemma duplicateErrors_at:
  "length (filter (\<lambda>e. line e = i + length (summaries r) + 1) (duplicateErrors r)) =
   (if i < length (messages r) \<and> repeated (messages r) i then 1 else 0)"
proof -
  have "length (filter (\<lambda>e. line e = i + length (summaries r) + 1) (duplicateErrors r)) =
        length (filter (\<lambda>j. j = i) (filter (repeated (messages r)) [0..<length (messages r)]))"
    by (simp add: duplicateErrors_def filter_map o_def duplicateError_def del: filter_filter)
  then show ?thesis
    by (simp add: length_filter_eq_distinct del: filter_filter)
qed

lemma duplicateErrors_of:
  "length (filter (\<lambda>e. error e = ''Duplicate UUID: '' @ u) (duplicateErrors r)) =
   length (filter (\<lambda>m. uuid m = u) (messages r)) - 1"
proof -
  have a: "seenBefore {} (messages r) = repeated (messages r)"
    by (auto simp: seenBefore_def repeated_def fun_eq_iff)
  have "length (filter (\<lambda>e. error e = ''Duplicate UUID: '' @ u) (duplicateErrors r)) =
        length (filter (\<lambda>j. uuid (messages r ! j) = u)
                 (filter (seenBefore {} (messages r)) [0..<length (messages r)]))"
    by (simp add: duplicateErrors_def filter_map o_def duplicateError_def a del: filter_filter)
  then show ?thesis
    by (simp add: count_seenBefore del: filter_filter)
qed

lemma orphanErrors_at:
  "length (filter (\<lambda>e. line e = i + length (summaries r) + 1) (orphanErrors r)) =
   (if i < length (messages r) \<and> flagged (messages r) (messages r ! i) then 1 else 0)"
proof -
  have "length (filter (\<lambda>e. line e = i + length (summaries r) + 1) (orphanErrors r)) =
        length (filter (\<lambda>j. j = i)
          (filter (\<lambda>i. flagged (messages r) (messages r ! i)) [0..<length (messages r)]))"
    by (simp add: orphanErrors_def filter_map o_def orphanError_def del: filter_filter)
  then show ?thesis
    by (simp add: length_filter_eq_distinct del: filter_filter)
qed

lemma orphanErrors_of:
  assumes "p \<noteq> []" "p \<notin> uuid ` set (messages r)"
  shows "length (filter (\<lambda>e. error e = ''Orphaned message: parent UUID '' @ p @ '' not found'')
            (orphanErrors r)) =
         length (filter (\<lambda>m. parentUuid m = Some p) (messages r))"
proof -
  have eq: "\<And>m. (flagged (messages r) m \<and> the (parentUuid m) = p) = (parentUuid m = Some p)"
    using assms by (auto simp: flagged_def split: option.splits)
  have "length (filter (\<lambda>e. error e = ''Orphaned message: parent UUID '' @ p @ '' not found'')
            (orphanErrors r)) =
        length (filter (\<lambda>i. (\<lambda>m. flagged (messages r) m \<and> the (parentUuid m) = p) (messages r ! i))
            [0..<length (messages r)])"
    by (simp add: orphanErrors_def filter_map o_def orphanError_def conj_commute)
  also have "\<dots> = length (filter (\<lambda>m. flagged (messages r) m \<and> the (parentUuid m) = p) (messages r))"
    by (rule length_filter_nth)
  finally show ?thesis by (simp add: eq)
qed

text \<open>
  C5. After \<open>parseConversation\<close> has returned \<open>r\<close>, the validator appends the duplicate
  errors and then the orphan errors. The message at index \<open>i\<close> has one duplicate error
  (at line \<open>i + summaries + 1\<close>) when an earlier message carries its identifier and
  none otherwise, so never for a first occurrence; the duplicate errors that name an
  identifier are one fewer than the messages that carry it: one for two messages.
\<close>

theorem validator_duplicates:
  "parseConversation P path ls = Inr r \<Longrightarrow>
   parseAndValidateConversation P path ls =
     Inr (r\<lparr>parseErrors := parseErrors r @ duplicateErrors r @ orphanErrors r\<rparr>) \<and>
   (\<forall>i < length (messages r).
      length (filter (\<lambda>e. line e = i + length (summaries r) + 1) (duplicateErrors r)) =
      (if repeated (messages r) i then 1 else 0)) \<and>
   (\<forall>u. length (filter (\<lambda>e. error e = ''Duplicate UUID: '' @ u) (duplicateErrors r)) =
        length (filter (\<lambda>m. uuid m = u) (messages r)) - 1)"
proof (intro conjI allI impI)
  assume "parseConversation P path ls = Inr r"
  then show "parseAndValidateConversation P path ls =
      Inr (r\<lparr>parseErrors := parseErrors r @ duplicateErrors r @ orphanErrors r\<rparr>)"
    by (simp add: parseAndValidateConversation_def validate_eq)
next
  fix i
  assume "i < length (messages r)"
  then show "length (filter (\<lambda>e. line e = i + length (summaries r) + 1) (duplicateErrors r)) =
      (if repeated (messages r) i then 1 else 0)"
    using duplicateErrors_at [of i r] by simp
next
  fix u
  show "length (filter (\<lambda>e. error e = ''Duplicate UUID: '' @ u) (duplicateErrors r)) =
      length (filter (\<lambda>m. uuid m = u) (messages r)) - 1"
    by (rule duplicateErrors_of)
qed

text \<open>
  C3, as amended. Every message whose parent identifier is a non-empty string that no
  message carries has exactly one orphan error of its own, and no other message has
  one; the orphan errors that name a missing parent are as many as the messages that
  carry it as \<open>parentUuid\<close>.
\<close>

theorem validator_orphans:
  "parseConversation P path ls = Inr r \<Longrightarrow>
   parseAndValidateConversation P path ls =
     Inr (r\<lparr>parseErrors := parseErrors r @ duplicateErrors r @ orphanErrors r\<rparr>) \<and>
   (\<forall>i < length (messages r).
      length (filter (\<lambda>e. line e = i + length (summaries r) + 1) (orphanErrors r)) =
      (if flagged (messages r) (messages r ! i) then 1 else 0)) \<and>
   (\<forall>p. p \<noteq> [] \<and> p \<notin> uuid ` set (messages r) \<longrightarrow>
      length (filter (\<lambda>e. error e = ''Orphaned message: parent UUID '' @ p @ '' not found'')
        (orphanErrors r)) =
      length (filter (\<lambda>m. parentUuid m = Some p) (messages r)))"
proof (intro conjI allI impI)
  assume "parseConversation P path ls = Inr r"
  then show "parseAndValidateConversation P path ls =
      Inr (r\<lparr>parseErrors := parseErrors r @ duplicateErrors r @ orphanErrors r\<rparr>)"
    by (simp add: parseAndValidateConversation_def validate_eq)
next
  fix i
  assume "i < length (messages r)"
  then show "length (filter (\<lambda>e. line e = i + length (summaries r) + 1) (orphanErrors r)) =
      (if flagged (messages r) (messages r ! i) then 1 else 0)"
    using orphanErrors_at [of i r] by simp
next
  fix p
  assume "p \<noteq> [] \<and> p \<notin> uuid ` set (messages r)"
  then show "length (filter (\<lambda>e. error e = ''Orphaned message: parent UUID '' @ p @ '' not found'')
        (orphanErrors r)) =
      length (filter (\<lambda>m. parentUuid m = Some p) (messages r))"
    using orphanErrors_of [of p r] by blast
qed

text \<open>
  C3 as stated fails: two messages that share the missing parent \<open>gone\<close> get two orphan
  errors, one each.
\<close>

theorem validator_orphans_shared_parent:
  \<open>parseAndValidateConversation examplePlatform ''log.jsonl''
     [''{"type":"user","uuid":"o1","parentUuid":"gone"}'',
      ''{"type":"user","uuid":"o2","parentUuid":"gone"}''] =
   Inr \<lparr>summaries = [],
        messages = [msg ''o1'' (Some ''gone''), msg ''o2'' (Some ''gone'')],
        filePath = ''log.jsonl'', lineCount = 2,
        parseErrors =
          [\<lparr>line = 1, error = ''Orphaned message: parent UUID gone not found'', content = []\<rparr>,
           \<lparr>line = 2, error = ''Orphaned message: parent UUID gone not found'', content = []\<rparr>]\<rparr>\<close>
  by (simp add: parseAndValidateConversation_def validate_def parseConversation_def
      readConversationLines_def examplePlatform_def exampleLines_def trim_def is_space_def msg_def)

lemma example_parse_orphan:
  \<open>parseConversation examplePlatform ''log.jsonl''
     [''{"type":"summary","summary":"s","leafUuid":"m2"}'',
      ''{"type":"user","uuid":"o1","parentUuid":"gone"}'',
      ''{"type":"user","uuid":"m1","parentUuid":null}''] =
   Inr \<lparr>summaries = [\<lparr>summary = ''s'', leafUuid = ''m2''\<rparr>],
        messages = [msg ''o1'' (Some ''gone''), msg ''m1'' None],
        filePath = ''log.jsonl'', lineCount = 3, parseErrors = []\<rparr>\<close>
  by (simp add: parseConversation_def
      readConversationLines_def examplePlatform_def exampleLines_def trim_def is_space_def msg_def)

theorem validator_orphans_witness:
  \<open>parseAndValidateConversation examplePlatform ''log.jsonl''
     [''{"type":"summary","summary":"s","leafUuid":"m2"}'',
      ''{"type":"user","uuid":"o1","parentUuid":"gone"}'',
      ''{"type":"user","uuid":"m1","parentUuid":null}''] =
   Inr \<lparr>summaries = [\<lparr>summary = ''s'', leafUuid = ''m2''\<rparr>],
        messages = [msg ''o1'' (Some ''gone''), msg ''m1'' None],
        filePath = ''log.jsonl'', lineCount = 3,
        parseErrors =
          [\<lparr>line = 2, error = ''Orphaned message: parent UUID gone not found'', content = []\<rparr>]\<rparr>\<close>
  using validator_orphans [OF example_parse_orphan]
  by (simp add: duplicateErrors_def orphanErrors_def repeated_def flagged_def msg_def
      orphanError_def duplicateError_def upt_conv_Cons)

lemma example_parse_duplicate:
  \<open>parseConversation examplePlatform ''log.jsonl''
     [''{"type":"user","uuid":"m2","parentUuid":"m1"}'',
      ''{"type":"user","uuid":"m1","parentUuid":null}'',
      ''{"type":"user","uuid":"m2","parentUuid":"m1"}''] =
   Inr \<lparr>summaries = [],
        messages = [msg ''m2'' (Some ''m1''), msg ''m1'' None, msg ''m2'' (Some ''m1'')],
        filePath = ''log.jsonl'', lineCount = 3, parseErrors = []\<rparr>\<close>
  by (simp add: parseConversation_def
      readConversationLines_def examplePlatform_def exampleLines_def trim_def is_space_def msg_def)

theorem validator_duplicates_witness:
  \<open>parseAndValidateConversation examplePlatform ''log.jsonl''
     [''{"type":"user","uuid":"m2","parentUuid":"m1"}'',
      ''{"type":"user","uuid":"m1","parentUuid":null}'',
      ''{"type":"user","uuid":"m2","parentUuid":"m1"}''] =
   Inr \<lparr>summaries = [],
        messages = [msg ''m2'' (Some ''m1''), msg ''m1'' None, msg ''m2'' (Some ''m1'')],
        filePath = ''log.jsonl'', lineCount = 3,
        parseErrors = [\<lparr>line = 3, error = ''Duplicate UUID: m2'', content = []\<rparr>]\<rparr>\<close>
  using validator_duplicates [OF example_parse_duplicate]
  by (simp add: duplicateErrors_def orphanErrors_def repeated_def flagged_def msg_def
      orphanError_def duplicateError_def upt_conv_Cons)

section \<open>The branches statistic\<close>

lemma increment_distinct: "distinct (map fst al) \<Longrightarrow> distinct (map fst (increment k al))"
  by (simp add: increment_def AList.distinct_update)

lemma increment_lookup:
  "or0 (map_of (increment k al) p) = or0 (map_of al p) + (if p = k then 1 else 0)"
  by (simp add: increment_def AList.update_conv')

lemma fold_increment:
  "distinct (map fst al) \<Longrightarrow>
   distinct (map fst (fold (\<lambda>msg. increment (parentUuid msg)) ms al)) \<and>
   (\<forall>p. or0 (map_of (fold (\<lambda>msg. increment (parentUuid msg)) ms al) p) =
        or0 (map_of al p) + length (filter (\<lambda>m. parentUuid m = p) ms))"
proof (induction ms arbitrary: al)
  case Nil
  then show ?case by simp
next
  case (Cons m ms)
  from Cons.IH [OF increment_distinct [OF Cons.prems, of "parentUuid m"]]
  show ?case by (auto simp: increment_lookup)
qed

lemma count_large_values:
  fixes al :: "('k \<times> nat) list"
  assumes "distinct (map fst al)"
  shows "length (filter (\<lambda>c. 1 < c) (map snd al)) = card {p. 1 < or0 (map_of al p)}"
proof -
  from assms have dal: "distinct al" by (simp add: distinct_map)
  have inj: "inj_on fst (set al)"
    using assms by (simp add: distinct_map)
  have "length (filter (\<lambda>c. 1 < c) (map snd al)) = length (filter (\<lambda>kv. 1 < snd kv) al)"
    by (simp add: filter_map o_def)
  also have "\<dots> = card (set (filter (\<lambda>kv. 1 < snd kv) al))"
    using dal by (intro distinct_card [symmetric] distinct_filter)
  also have "\<dots> = card (fst ` set (filter (\<lambda>kv. 1 < snd kv) al))"
    by (rule card_image [symmetric]) (rule inj_on_subset [OF inj], auto)
  also have "fst ` set (filter (\<lambda>kv. 1 < snd kv) al) = {p. 1 < or0 (map_of al p)}"
  proof (intro set_eqI iffI)
    fix p assume "p \<in> fst ` set (filter (\<lambda>kv. 1 < snd kv) al)"
    then obtain v where "(p, v) \<in> set al" "1 < v" by auto
    with assms have "map_of al p = Some v" by simp
    with \<open>1 < v\<close> show "p \<in> {p. 1 < or0 (map_of al p)}" by simp
  next
    fix p assume "p \<in> {p. 1 < or0 (map_of al p)}"
    then have gt: "1 < or0 (map_of al p)" by simp
    then obtain v where v: "map_of al p = Some v" by (cases "map_of al p") auto
    then have "(p, v) \<in> set al" by (rule map_of_SomeD)
    with gt v show "p \<in> fst ` set (filter (\<lambda>kv. 1 < snd kv) al)" by force
  qed
  finally show ?thesis .
qed

text \<open>
  C8. \<open>branches\<close> is the number of distinct \<open>parentUuid\<close> values, \<open>null\<close> among them,
  that more than one message carries: two roots make the \<open>null\<close> group one branch, a
  single root makes it none.
\<close>

theorem branches_counts_fork_points:
  "branches (calculateConversationStats P c) = card (forkPoints (messages c))"
proof (cases "messages c = []")
  case True
  then show ?thesis
    by (simp add: calculateConversationStats_def forkPoints_def)
next
  case False
  have d: "distinct (map fst ([] :: (string option \<times> nat) list))" by simp
  note f = fold_increment [OF d, of "messages c"]
  from f have dist: "distinct (map fst (fold (\<lambda>msg. increment (parentUuid msg)) (messages c) []))"
    by simp
  from f have look: "\<And>p. or0 (map_of (fold (\<lambda>msg. increment (parentUuid msg)) (messages c) []) p) =
      length (filter (\<lambda>m. parentUuid m = p) (messages c))"
    by simp
  from False have "branches (calculateConversationStats P c) =
      length (filter (\<lambda>count. 1 < count)
        (map snd (fold (\<lambda>msg. increment (parentUuid msg)) (messages c) [])))"
    by (simp add: calculateConversationStats_def Let_def)
  also have "\<dots> = card {p. 1 < or0 (map_of (fold (\<lambda>msg. increment (parentUuid msg)) (messages c) []) p)}"
    by (rule count_large_values [OF dist])
  also have "\<dots> = card (forkPoints (messages c))"
    by (simp add: look forkPoints_def)
  finally show ?thesis .
qed

theorem branches_counts_fork_points_witness:
  "card (forkPoints [msg ''r'' None, msg ''a'' (Some ''r''), msg ''b'' (Some ''r''), msg ''c'' None,
       msg ''d'' (Some ''a'')]) = 2 \<and>
   card (forkPoints [msg ''r'' None, msg ''c'' None]) = 1 \<and>
   card (forkPoints [msg ''r'' None, msg ''a'' (Some ''r'')]) = 0"
  using branches_counts_fork_points [of examplePlatform
      "conv [] [msg ''r'' None, msg ''a'' (Some ''r''), msg ''b'' (Some ''r''), msg ''c'' None,
         msg ''d'' (Some ''a'')]"]
    branches_counts_fork_points [of examplePlatform "conv [] [msg ''r'' None, msg ''c'' None]"]
    branches_counts_fork_points [of examplePlatform
      "conv [] [msg ''r'' None, msg ''a'' (Some ''r'')]"]
  by (simp add: calculateConversationStats_def conv_def msg_def increment_def)

section \<open>The walk from the leaf\<close>

lemma fold_messageMap:
  "fold (\<lambda>m messageMap. messageMap(uuid m \<mapsto> m)) msgs m0 u =
   (case find (\<lambda>m. uuid m = u) (rev msgs) of None \<Rightarrow> m0 u | Some m \<Rightarrow> Some m)"
  by (induction msgs rule: rev_induct) auto

lemma buildMessageMap_lastWith: "buildMessageMap msgs u = lastWith msgs u"
  by (simp add: buildMessageMap_def lastWith_def fold_messageMap split: option.splits)

lemma lastWith_member: "lastWith msgs u = Some m \<Longrightarrow> m \<in> set msgs \<and> uuid m = u"
proof -
  assume "lastWith msgs u = Some m"
  then have f: "find (\<lambda>m. uuid m = u) (rev msgs) = Some m" by (simp add: lastWith_def)
  then obtain i where "i < length (rev msgs)" "uuid (rev msgs ! i) = u" "m = rev msgs ! i"
    unfolding find_Some_iff by blast
  then have "m \<in> set (rev msgs)" "uuid m = u" by (auto simp del: set_rev)
  then show ?thesis by simp
qed

text \<open>
  C4, as amended. When the conversation contains the chain and each of its four messages
  is the last message of the list that carries its identifier (as it is when the
  identifiers of the list are pairwise distinct), \<open>getActiveBranch\<close> returns the chain
  from the root to the leaf that the first summary names.
\<close>

theorem getActiveBranch_chain:
  assumes "summaries c = s # ss" and "leafUuid s = uuid mc"
    and "parentUuid mr = None" and "parentUuid ma = Some (uuid mr)"
    and "parentUuid mb = Some (uuid ma)" and "parentUuid mc = Some (uuid mb)"
    and "lastWith (messages c) (uuid mr) = Some mr"
    and "lastWith (messages c) (uuid ma) = Some ma"
    and "lastWith (messages c) (uuid mb) = Some mb"
    and "lastWith (messages c) (uuid mc) = Some mc"
  shows "getActiveBranch c = Some [mr, ma, mb, mc]"
proof -
  from assms(10) have ne: "messages c \<noteq> []" by (auto simp: lastWith_def)
  let ?mm = "buildMessageMap (messages c)"
  have mm: "?mm (uuid mr) = Some mr" "?mm (uuid ma) = Some ma" "?mm (uuid mb) = Some mb"
    "?mm (uuid mc) = Some mc"
    using assms(7-10) by (simp_all add: buildMessageMap_lastWith)
  have "traceBack ?mm [mr, ma, mb, mc] None = Some [mr, ma, mb, mc]"
    by (subst traceBack.simps) simp
  then have "traceBack ?mm [ma, mb, mc] (Some (uuid mr)) = Some [mr, ma, mb, mc]"
    by (subst traceBack.simps) (simp add: mm assms(3))
  then have "traceBack ?mm [mb, mc] (Some (uuid ma)) = Some [mr, ma, mb, mc]"
    by (subst traceBack.simps) (simp add: mm assms(4))
  then have "traceBack ?mm [mc] (Some (uuid mb)) = Some [mr, ma, mb, mc]"
    by (subst traceBack.simps) (simp add: mm assms(5))
  then have "traceBack ?mm [] (Some (uuid mc)) = Some [mr, ma, mb, mc]"
    by (subst traceBack.simps) (simp add: mm assms(6))
  then show ?thesis
    using assms(1,2) ne mm(4) by (simp add: getActiveBranch_def Let_def)
qed

theorem getActiveBranch_chain_witness:
  "getActiveBranch (conv [\<lparr>summary = ''s'', leafUuid = ''c''\<rparr>]
     [msg ''r'' None, msg ''a'' (Some ''r''), msg ''x'' (Some ''r''), msg ''b'' (Some ''a''),
      msg ''c'' (Some ''b'')]) =
   Some [msg ''r'' None, msg ''a'' (Some ''r''), msg ''b'' (Some ''a''), msg ''c'' (Some ''b'')]"
  using getActiveBranch_chain [of "conv [\<lparr>summary = ''s'', leafUuid = ''c''\<rparr>]
     [msg ''r'' None, msg ''a'' (Some ''r''), msg ''x'' (Some ''r''), msg ''b'' (Some ''a''),
      msg ''c'' (Some ''b'')]" "\<lparr>summary = ''s'', leafUuid = ''c''\<rparr>" "[]"
      "msg ''c'' (Some ''b'')" "msg ''r'' None" "msg ''a'' (Some ''r'')" "msg ''b'' (Some ''a'')"]
  by (simp add: conv_def msg_def lastWith_def)

text \<open>
  C4 as stated fails: the list holds the chain \<open>r\<close>, \<open>a\<close>, \<open>b\<close>, \<open>c\<close> and then a second
  message with the identifier \<open>b\<close>; the map keeps the later one, and the walk from
  \<open>c\<close> goes to it and ends there.
\<close>

theorem getActiveBranch_chain_later_duplicate:
  "getActiveBranch (conv [\<lparr>summary = ''s'', leafUuid = ''c''\<rparr>]
     [msg ''r'' None, msg ''a'' (Some ''r''), msg ''b'' (Some ''a''), msg ''c'' (Some ''b''),
      msg ''b'' None]) =
   Some [msg ''b'' None, msg ''c'' (Some ''b'')]"
  by (simp add: getActiveBranch_def buildMessageMap_def traceBack.simps conv_def msg_def)

lemma parentLinks_iff:
  "((u, p) \<in> parentLinks msgs) = (\<exists>m \<in> set msgs. uuid m = u \<and> parentUuid m = Some p)"
proof -
  have "((u, p) \<in> parentLinks msgs) =
      (\<exists>m \<in> set msgs. (u, p) \<in> set (case parentUuid m of None \<Rightarrow> [] | Some q \<Rightarrow> [(uuid m, q)]))"
    unfolding parentLinks_def set_concat set_map by blast
  also have "\<dots> = (\<exists>m \<in> set msgs. uuid m = u \<and> parentUuid m = Some p)"
  proof (rule bex_cong [OF refl])
    fix m
    show "((u, p) \<in> set (case parentUuid m of None \<Rightarrow> [] | Some q \<Rightarrow> [(uuid m, q)])) =
      (uuid m = u \<and> parentUuid m = Some p)"
      by (cases "parentUuid m") auto
  qed
  finally show ?thesis .
qed

lemma traceBack_terminates:
  assumes ac: "acyclic (parentLinks msgs)"
  shows "set acc \<subseteq> set msgs \<Longrightarrow>
     \<exists>b. traceBack (buildMessageMap msgs) acc (Some u) = Some b \<and> set b \<subseteq> set msgs"
proof -
  have fin: "finite (parentLinks msgs)" unfolding parentLinks_def by (rule finite_set)
  from finite_acyclic_wf_converse [OF fin ac] have wf: "wf ((parentLinks msgs)\<inverse>)" .
  have "\<forall>acc. set acc \<subseteq> set msgs \<longrightarrow>
     (\<exists>b. traceBack (buildMessageMap msgs) acc (Some u) = Some b \<and> set b \<subseteq> set msgs)"
    using wf
  proof (induction u rule: wf_induct_rule)
    case (less u)
    show ?case
    proof (intro allI impI)
      fix acc assume acc: "set acc \<subseteq> set msgs"
      show "\<exists>b. traceBack (buildMessageMap msgs) acc (Some u) = Some b \<and> set b \<subseteq> set msgs"
      proof (cases "buildMessageMap msgs u")
        case None
        then show ?thesis using acc by (subst traceBack.simps) simp
      next
        case (Some m)
        then have m: "m \<in> set msgs" "uuid m = u"
          using lastWith_member [of msgs u m] by (simp_all add: buildMessageMap_lastWith)
        show ?thesis
        proof (cases "parentUuid m")
          case None
          then show ?thesis using Some acc m
            by (subst traceBack.simps) (simp add: traceBack.simps [of _ _ None])
        next
          case (Some p)
          with m have "(u, p) \<in> parentLinks msgs" by (auto simp: parentLinks_iff)
          then have "(p, u) \<in> (parentLinks msgs)\<inverse>" by simp
          from less [OF this] acc m
          have "\<exists>b. traceBack (buildMessageMap msgs) (m # acc) (Some p) = Some b \<and> set b \<subseteq> set msgs"
            by simp
          then show ?thesis using \<open>buildMessageMap msgs u = Some m\<close> Some
            by (subst traceBack.simps) simp
        qed
      qed
    qed
  qed
  then show "set acc \<subseteq> set msgs \<Longrightarrow>
     \<exists>b. traceBack (buildMessageMap msgs) acc (Some u) = Some b \<and> set b \<subseteq> set msgs"
    by blast
qed

text \<open>
  C10. When the parent links of the messages have no cycle, \<open>getActiveBranch\<close> returns,
  and every message of the list it returns is a message of the conversation.
\<close>

theorem getActiveBranch_members:
  "acyclic (parentLinks (messages c)) \<Longrightarrow>
   \<exists>b. getActiveBranch c = Some b \<and> set b \<subseteq> set (messages c)"
  using traceBack_terminates [of "messages c" "[]"]
  by (auto simp: getActiveBranch_def Let_def split: list.splits)

lemma acyclic_by_measure:
  fixes f :: "'a \<Rightarrow> nat"
  assumes "\<forall>(x, y) \<in> r. f x < f y"
  shows "acyclic r"
proof -
  from assms have "r \<subseteq> measure f" by (auto simp: measure_def inv_image_def)
  with wf_measure [of f] have "wf r" by (rule wf_subset)
  then show ?thesis by (rule wf_acyclic)
qed



lemma exampleConversation_acyclic:
  "acyclic (parentLinks (messages exampleConversation))"
  by (rule acyclic_by_measure [where f = "\<lambda>u. if u = ''r'' then 2 else if u = ''a'' then 1 else 0"])
    (simp add: parentLinks_def msg_def exampleConversation_def conv_def)

theorem getActiveBranch_members_witness:
  "acyclic (parentLinks (messages exampleConversation)) \<and>
   (\<exists>b. getActiveBranch exampleConversation = Some b \<and>
        set b \<subseteq> set (messages exampleConversation))"
  using exampleConversation_acyclic getActiveBranch_members [OF exampleConversation_acyclic]
  by blast

section \<open>The tree builder\<close>

lemma childrenOf_fold:
  "childrenOf (fold addChild msgs cm) k = childrenOf cm k @ filter (\<lambda>m. parentUuid m = k) msgs"
  by (induction msgs arbitrary: cm) (auto simp: childrenOf_def addChild_def split: option.splits)

lemma childrenOf_build:
  "childrenOf (buildChildrenMap msgs) k = filter (\<lambda>m. parentUuid m = k) msgs"
  by (simp add: buildChildrenMap_def childrenOf_fold) (simp add: childrenOf_def)

lemma nextLayer_append: "nextLayer msgs (A @ B) = nextLayer msgs A @ nextLayer msgs B"
  by (simp add: nextLayer_def)

lemma nextLayer_Cons: "nextLayer msgs (m # L) = attached msgs m @ nextLayer msgs L"
  by (simp add: nextLayer_def)

lemma nextLayer_Nil: "nextLayer msgs [] = []"
  by (simp add: nextLayer_def)

lemma layerFrom_append: "layerFrom msgs d (A @ B) = layerFrom msgs d A @ layerFrom msgs d B"
  by (induction d arbitrary: A B) (simp_all add: nextLayer_append)

lemma layerFrom_Nil: "layerFrom msgs d [] = []"
  by (induction d) (simp_all add: nextLayer_Nil)

lemma layerFrom_Cons:
  "layerFrom msgs (Suc d) (m # L) = layerFrom msgs d (attached msgs m) @ layerFrom msgs (Suc d) L"
  by (simp add: nextLayer_Cons layerFrom_append)

lemma nodesWithin_append:
  "nodesWithin msgs f (A @ B) = nodesWithin msgs f A + nodesWithin msgs f B"
  by (induction f arbitrary: A B) (simp_all add: nextLayer_append)

lemma nodesWithin_Nil: "nodesWithin msgs f [] = 0"
  by (induction f) (simp_all add: nextLayer_Nil)

lemma nodesWithin_Cons:
  "nodesWithin msgs (Suc f) (m # L) =
   1 + nodesWithin msgs f (attached msgs m) + nodesWithin msgs (Suc f) L"
  by (simp add: nextLayer_Cons nodesWithin_append)

lemma buildForest_layers:
  "case those (map (buildNode f (buildChildrenMap msgs)) L) of
     None \<Rightarrow> layerFrom msgs f L \<noteq> []
   | Some ns \<Rightarrow> layerFrom msgs f L = [] \<and> countForest ns = nodesWithin msgs f L"
proof (induction f arbitrary: L)
  case 0
  show ?case by (cases L) (simp_all add: countForest_def)
next
  case (Suc f)
  show ?case
  proof (induction L)
    case Nil
    show ?case by (simp add: countForest_def nextLayer_Nil layerFrom_Nil nodesWithin_Nil)
  next
    case (Cons m L)
    have kids: "childrenOf (buildChildrenMap msgs) (Some (uuid m)) = attached msgs m"
      by (simp add: childrenOf_build attached_def)
    from Suc [of "attached msgs m"] Cons
    show ?case
      unfolding layerFrom_Cons nodesWithin_Cons
      by (auto simp: kids countForest_def split: option.splits)
  qed
qed


lemma level_Suc_iff:
  "level msgs (Suc d) x = (\<exists>y \<in> set msgs. parentUuid x = Some (uuid y) \<and> level msgs d y)"
  by (simp add: list_ex_iff)

lemma layerFrom_Suc_end: "layerFrom msgs (Suc d) L = nextLayer msgs (layerFrom msgs d L)"
  by (induction d arbitrary: L) simp_all

lemma set_nextLayer:
  "set (nextLayer msgs L) = {x \<in> set msgs. \<exists>m \<in> set L. parentUuid x = Some (uuid m)}"
  by (auto simp: nextLayer_def attached_def)

lemma set_layer:
  "set (layerFrom msgs d (rootsOf msgs)) = {x \<in> set msgs. level msgs d x}"
proof (induction d)
  case 0
  show ?case by (auto simp: rootsOf_def)
next
  case (Suc d)
  show ?case
    unfolding layerFrom_Suc_end set_nextLayer Suc level_Suc_iff by blast
qed

lemma uuid_inj:
  "distinct (map uuid msgs) \<Longrightarrow> x \<in> set msgs \<Longrightarrow> y \<in> set msgs \<Longrightarrow> uuid x = uuid y \<Longrightarrow> x = y"
  by (auto simp: distinct_map dest: inj_onD)

lemma distinct_nextLayer:
  assumes d: "distinct (map uuid msgs)"
  shows "distinct L \<Longrightarrow> set L \<subseteq> set msgs \<Longrightarrow> distinct (nextLayer msgs L)"
proof (induction L)
  case Nil
  show ?case by (simp add: nextLayer_Nil)
next
  case (Cons m L)
  from d have dm: "distinct msgs" by (simp add: distinct_map)
  have a: "distinct (attached msgs m)" using dm by (simp add: attached_def)
  have b: "distinct (nextLayer msgs L)" using Cons by simp
  have c: "set (attached msgs m) \<inter> set (nextLayer msgs L) = {}"
  proof (rule ccontr)
    assume "set (attached msgs m) \<inter> set (nextLayer msgs L) \<noteq> {}"
    then obtain x where x1: "x \<in> set (attached msgs m)" and x2: "x \<in> set (nextLayer msgs L)"
      by blast
    from x1 have p1: "parentUuid x = Some (uuid m)" by (simp add: attached_def)
    from x2 obtain m' where m': "m' \<in> set L" "parentUuid x = Some (uuid m')"
      by (auto simp: set_nextLayer)
    with p1 have "uuid m = uuid m'" by simp
    moreover from Cons.prems m' have "m \<in> set msgs" "m' \<in> set msgs" by auto
    ultimately have "m = m'" using uuid_inj [OF d] by blast
    with m' Cons.prems show False by simp
  qed
  from a b c show ?case by (simp add: nextLayer_Cons)
qed

lemma distinct_layer:
  assumes d: "distinct (map uuid msgs)"
  shows "distinct (layerFrom msgs k (rootsOf msgs))"
proof (induction k)
  case 0
  from d have "distinct msgs" by (simp add: distinct_map)
  then show ?case by (simp add: rootsOf_def)
next
  case (Suc k)
  have "set (layerFrom msgs k (rootsOf msgs)) \<subseteq> set msgs"
    by (auto simp: set_layer)
  from distinct_nextLayer [OF d Suc this] show ?case
    by (simp only: layerFrom_Suc_end)
qed

lemma length_layer:
  assumes d: "distinct (map uuid msgs)"
  shows "length (layerFrom msgs k (rootsOf msgs)) = length (filter (level msgs k) msgs)"
proof -
  from d have dm: "distinct msgs" by (simp add: distinct_map)
  have "length (layerFrom msgs k (rootsOf msgs)) = card (set (layerFrom msgs k (rootsOf msgs)))"
    by (rule distinct_card [symmetric]) (rule distinct_layer [OF d])
  also have "\<dots> = card (set (filter (level msgs k) msgs))"
    by (simp add: set_layer)
  also have "\<dots> = length (filter (level msgs k) msgs)"
    by (rule distinct_card) (simp add: dm)
  finally show ?thesis .
qed

lemma level_unique:
  assumes d: "distinct (map uuid msgs)"
  shows "level msgs k x \<Longrightarrow> level msgs k' x \<Longrightarrow> k = k'"
proof (induction k arbitrary: x k')
  case 0
  then show ?case by (cases k') (auto simp: list_ex_iff)
next
  case (Suc k)
  from Suc.prems(1) obtain y where y: "y \<in> set msgs" "parentUuid x = Some (uuid y)" "level msgs k y"
    by (auto simp: list_ex_iff)
  show ?case
  proof (cases k')
    case 0
    with Suc.prems(2) y show ?thesis by simp
  next
    case (Suc j)
    with Suc.prems(2) obtain y' where y': "y' \<in> set msgs" "parentUuid x = Some (uuid y')" "level msgs j y'"
      by (auto simp: list_ex_iff)
    from y y' have "uuid y = uuid y'" by simp
    with uuid_inj [OF d y(1) y'(1)] have "y = y'" by simp
    with Suc.IH [OF y(3)] y'(3) have "k = j" by simp
    with Suc show ?thesis by simp
  qed
qed

lemma level_below:
  "level msgs k x \<Longrightarrow> x \<in> set msgs \<Longrightarrow> j \<le> k \<Longrightarrow> \<exists>y \<in> set msgs. level msgs j y"
proof (induction k arbitrary: x)
  case 0
  then show ?case by auto
next
  case (Suc k)
  show ?case
  proof (cases "j = Suc k")
    case True
    with Suc.prems show ?thesis by blast
  next
    case False
    with Suc.prems have "j \<le> k" by simp
    moreover from Suc.prems(1) obtain y where "y \<in> set msgs" "level msgs k y"
      by (auto simp: list_ex_iff)
    ultimately show ?thesis using Suc.IH by blast
  qed
qed

lemma level_bound:
  assumes d: "distinct (map uuid msgs)" and l: "level msgs k x" and x: "x \<in> set msgs"
  shows "k < length msgs"
proof -
  have "\<forall>j \<in> {..k}. \<exists>y. y \<in> set msgs \<and> level msgs j y"
    using level_below [OF l x] by auto
  then obtain g where g: "\<forall>j \<in> {..k}. g j \<in> set msgs \<and> level msgs j (g j)"
    by (rule bchoice [THEN exE])
  have "inj_on g {..k}"
  proof (rule inj_onI)
    fix i j assume "i \<in> {..k}" "j \<in> {..k}" "g i = g j"
    from g \<open>i \<in> {..k}\<close> have a: "level msgs i (g i)" by blast
    from g \<open>j \<in> {..k}\<close> have "level msgs j (g j)" by blast
    with \<open>g i = g j\<close> have "level msgs j (g i)" by simp
    with a show "i = j" by (rule level_unique [OF d])
  qed
  moreover have "g ` {..k} \<subseteq> set msgs" using g by auto
  ultimately have "card {..k} \<le> card (set msgs)"
    by (rule card_inj_on_le) simp
  also have "\<dots> \<le> length msgs" by (rule card_length)
  finally show ?thesis by simp
qed

lemma nodesWithin_sum:
  "nodesWithin msgs f L = (\<Sum>k<f. length (layerFrom msgs k L))"
proof (induction f arbitrary: L)
  case 0
  show ?case by simp
next
  case (Suc f)
  show ?case by (simp add: Suc sum.lessThan_Suc_shift del: sum.lessThan_Suc)
qed

lemma length_filter_disjoint:
  "\<forall>x \<in> set xs. \<not> (P x \<and> Q x) \<Longrightarrow>
   length (filter (\<lambda>x. P x \<or> Q x) xs) = length (filter P xs) + length (filter Q xs)"
  by (induction xs) auto

lemma sum_levels:
  assumes d: "distinct (map uuid msgs)"
  shows "(\<Sum>k<f. length (filter (level msgs k) msgs)) =
     length (filter (\<lambda>x. \<exists>k<f. level msgs k x) msgs)"
proof (induction f)
  case 0
  show ?case by simp
next
  case (Suc f)
  have disj: "\<forall>x \<in> set msgs. \<not> ((\<exists>k<f. level msgs k x) \<and> level msgs f x)"
    using level_unique [OF d] by blast
  have "(\<lambda>x. \<exists>k<Suc f. level msgs k x) = (\<lambda>x. (\<exists>k<f. level msgs k x) \<or> level msgs f x)"
    by (auto simp: less_Suc_eq)
  then show ?case
    using length_filter_disjoint [OF disj] Suc by simp
qed

lemma rooted_iff: "rooted msgs x = (\<exists>k<length msgs. level msgs k x)"
  by (auto simp: rooted_def list_ex_iff)

lemma rooted_not_orphaned: "rooted msgs x \<Longrightarrow> \<not> orphaned msgs x"
proof -
  assume "rooted msgs x"
  then obtain k where "level msgs k x" by (auto simp: rooted_iff)
  then show ?thesis
    by (cases k) (auto simp: orphaned_def list_ex_iff)
qed

lemma length_nodeMessages: "length (nodeMessages n) = countNodes n"
proof (induction n)
  case (ConversationNode m cs)
  then show ?case by (simp add: length_concat o_def cong: map_cong)
qed

lemma length_forestMessages: "length (forestMessages ns) = countForest ns"
  by (simp add: forestMessages_def countForest_def length_concat o_def length_nodeMessages)

lemma messagesWithin_append:
  "messagesWithin msgs f (A @ B) = messagesWithin msgs f A \<union> messagesWithin msgs f B"
  by (induction f arbitrary: A B) (auto simp: nextLayer_append)

lemma messagesWithin_Nil: "messagesWithin msgs f [] = {}"
  by (induction f) (simp_all add: nextLayer_Nil)

lemma messagesWithin_Cons:
  "messagesWithin msgs (Suc f) (m # L) =
   insert m (messagesWithin msgs f (attached msgs m)) \<union> messagesWithin msgs (Suc f) L"
  by (auto simp: nextLayer_Cons messagesWithin_append)

lemma buildForest_messages:
  "those (map (buildNode f (buildChildrenMap msgs)) L) = Some ns \<Longrightarrow>
   set (forestMessages ns) = messagesWithin msgs f L"
proof (induction f arbitrary: L ns)
  case 0
  then show ?case by (cases L) (simp_all add: forestMessages_def)
next
  case (Suc f)
  from Suc.prems show ?case
  proof (induction L arbitrary: ns)
    case Nil
    then show ?case by (simp add: forestMessages_def messagesWithin_Nil nextLayer_Nil)
  next
    case (Cons m L)
    have kids: "childrenOf (buildChildrenMap msgs) (Some (uuid m)) = attached msgs m"
      by (simp add: childrenOf_build attached_def)
    have step: "buildNode (Suc f) (buildChildrenMap msgs) m =
        map_option (ConversationNode m)
          (those (map (buildNode f (buildChildrenMap msgs)) (attached msgs m)))"
      by (simp add: kids)
    from Cons.prems obtain cs ns' where
      cs: "those (map (buildNode f (buildChildrenMap msgs)) (attached msgs m)) = Some cs"
      and ns': "those (map (buildNode (Suc f) (buildChildrenMap msgs)) L) = Some ns'"
      and ns: "ns = ConversationNode m cs # ns'"
      by (auto simp: step simp del: buildNode.simps split: option.splits)
    from Suc.IH [OF cs] have a: "set (forestMessages cs) = messagesWithin msgs f (attached msgs m)" .
    from Cons.IH [OF ns'] have b: "set (forestMessages ns') = messagesWithin msgs (Suc f) L" .
    have "set (forestMessages ns) =
        insert m (set (forestMessages cs)) \<union> set (forestMessages ns')"
      by (simp add: ns forestMessages_def)
    with a b show ?case by (simp only: messagesWithin_Cons)
  qed
qed

lemma messagesWithin_layers:
  "messagesWithin msgs f L = (\<Union>k<f. set (layerFrom msgs k L))"
proof (induction f arbitrary: L)
  case 0
  show ?case by simp
next
  case (Suc f)
  have "(\<Union>k<Suc f. set (layerFrom msgs k L)) =
      set (layerFrom msgs 0 L) \<union> (\<Union>k<f. set (layerFrom msgs (Suc k) L))"
    by (auto simp: less_Suc_eq_0_disj)
  then show ?case by (simp add: Suc)
qed

lemma messagesWithin_roots:
  "messagesWithin msgs f (rootsOf msgs) = {x \<in> set msgs. \<exists>k<f. level msgs k x}"
  by (auto simp: messagesWithin_layers set_layer)

text \<open>
  C2, as amended. For a list of messages with pairwise distinct identifiers,
  \<open>buildConversationTree\<close> returns, with calls no deeper than the length of the list.
  The messages of its nodes are exactly the messages with a chain of parents that ends
  at a root, each in one node, so the nodes are as many as these messages. No orphan is
  in the forest, and no message whose parent is a message outside the forest. The count
  is the length of the list less the orphans when every message that is no orphan has
  such a chain.
\<close>

theorem buildConversationTree_count:
  assumes d: "distinct (map uuid msgs)" and f: "length msgs \<le> depth"
  shows "\<exists>forest. buildConversationTree depth msgs = Some forest \<and>
     countForest forest = length (filter (rooted msgs) msgs) \<and>
     set (forestMessages forest) = set (filter (rooted msgs) msgs) \<and>
     distinct (forestMessages forest) \<and>
     (\<forall>m \<in> set msgs. orphaned msgs m \<longrightarrow> m \<notin> set (forestMessages forest)) \<and>
     (\<forall>x \<in> set msgs. \<forall>y \<in> set msgs.
        parentUuid x = Some (uuid y) \<and> y \<notin> set (forestMessages forest) \<longrightarrow>
        x \<notin> set (forestMessages forest)) \<and>
     ((\<forall>m \<in> set msgs. \<not> orphaned msgs m \<longrightarrow> rooted msgs m) \<longrightarrow>
        countForest forest = length msgs - length (filter (orphaned msgs) msgs))"
proof -
  have roots: "childrenOf (buildChildrenMap msgs) None = rootsOf msgs"
    by (simp add: childrenOf_build rootsOf_def)
  have empty: "layerFrom msgs depth (rootsOf msgs) = []"
  proof -
    have "\<not> level msgs depth x" if "x \<in> set msgs" for x
    proof
      assume "level msgs depth x"
      from level_bound [OF d this that] f show False by simp
    qed
    then have "set (layerFrom msgs depth (rootsOf msgs)) = {}"
      by (auto simp: set_layer)
    then show ?thesis by simp
  qed
  from buildForest_layers [where f = depth and msgs = msgs and L = "rootsOf msgs"] empty
  obtain forest where forest: "those (map (buildNode depth (buildChildrenMap msgs)) (rootsOf msgs)) = Some forest"
    and cnt: "countForest forest = nodesWithin msgs depth (rootsOf msgs)"
    by (auto split: option.splits)
  have same: "\<forall>x \<in> set msgs. (\<exists>k<depth. level msgs k x) = rooted msgs x"
  proof (intro ballI iffI)
    fix x assume x: "x \<in> set msgs" and "\<exists>k<depth. level msgs k x"
    then obtain k where k: "level msgs k x" by blast
    from level_bound [OF d k x] k show "rooted msgs x" by (auto simp: rooted_iff)
  next
    fix x assume "rooted msgs x"
    then obtain k where "k < length msgs" "level msgs k x" by (auto simp: rooted_iff)
    with f show "\<exists>k<depth. level msgs k x" by (intro exI [of _ k]) simp
  qed
  have "countForest forest = (\<Sum>k<depth. length (filter (level msgs k) msgs))"
    by (simp add: cnt nodesWithin_sum length_layer [OF d])
  also have "\<dots> = length (filter (\<lambda>x. \<exists>k<depth. level msgs k x) msgs)"
    by (rule sum_levels [OF d])
  also have "\<dots> = length (filter (rooted msgs) msgs)"
  proof -
    from same have "filter (\<lambda>x. \<exists>k<depth. level msgs k x) msgs = filter (rooted msgs) msgs"
      by (intro filter_cong) auto
    then show ?thesis by simp
  qed
  finally have total: "countForest forest = length (filter (rooted msgs) msgs)" .
  have special: "countForest forest = length msgs - length (filter (orphaned msgs) msgs)"
    if all: "\<forall>m \<in> set msgs. \<not> orphaned msgs m \<longrightarrow> rooted msgs m"
  proof -
    from all rooted_not_orphaned
    have "filter (rooted msgs) msgs = filter (\<lambda>m. \<not> orphaned msgs m) msgs"
      by (intro filter_cong) auto
    with total sum_length_filter_compl [of "orphaned msgs" msgs] show ?thesis by simp
  qed
  have members: "set (forestMessages forest) = set (filter (rooted msgs) msgs)"
  proof -
    have "set (forestMessages forest) = {x \<in> set msgs. \<exists>k<depth. level msgs k x}"
      by (simp only: buildForest_messages [OF forest] messagesWithin_roots)
    with same show ?thesis by auto
  qed
  have once: "distinct (forestMessages forest)"
  proof (rule card_distinct)
    from d have "distinct (filter (rooted msgs) msgs)" by (simp add: distinct_map)
    then have "card (set (filter (rooted msgs) msgs)) = length (filter (rooted msgs) msgs)"
      by (rule distinct_card)
    with members total show "card (set (forestMessages forest)) = length (forestMessages forest)"
      by (simp only: length_forestMessages)
  qed
  have orphans: "\<forall>m \<in> set msgs. orphaned msgs m \<longrightarrow> m \<notin> set (forestMessages forest)"
    using rooted_not_orphaned by (auto simp: members)
  have below: "x \<notin> set (forestMessages forest)"
    if x: "x \<in> set msgs" and y: "y \<in> set msgs" and p: "parentUuid x = Some (uuid y)"
      and out: "y \<notin> set (forestMessages forest)" for x y
  proof
    assume "x \<in> set (forestMessages forest)"
    then have "rooted msgs x" by (simp add: members)
    then obtain k where k: "level msgs k x" by (auto simp: rooted_iff)
    with p obtain j where j: "k = Suc j" by (cases k) auto
    with k obtain y' where y': "y' \<in> set msgs" "parentUuid x = Some (uuid y')" "level msgs j y'"
      by (auto simp: list_ex_iff)
    with p have "uuid y' = uuid y" by simp
    with uuid_inj [OF d y'(1) y] have "y' = y" by simp
    with y'(3) have l: "level msgs j y" by simp
    from level_bound [OF d l y] l have "rooted msgs y" by (auto simp: rooted_iff)
    with y out show False by (simp add: members)
  qed
  from forest have built: "buildConversationTree depth msgs = Some forest"
    by (simp add: buildConversationTree_def Let_def roots)
  from built total members once orphans below special show ?thesis
    by blast
qed

theorem buildConversationTree_count_witness:
  "distinct (map uuid exampleMessages) \<and>
   (\<exists>forest.
      buildConversationTree 5 exampleMessages = Some forest \<and>
      countForest forest = 4 \<and>
      set (forestMessages forest) =
        {msg ''r'' None, msg ''a'' (Some ''r''), msg ''x'' (Some ''r''), msg ''b'' (Some ''a'')} \<and>
      distinct (forestMessages forest)) \<and>
   length exampleMessages - length (filter (orphaned exampleMessages) exampleMessages) = 4"
proof -
  have d: "distinct (map uuid exampleMessages)"
    by (simp add: exampleMessages_def msg_def)
  have l: "length exampleMessages \<le> 5"
    by (simp add: exampleMessages_def)
  have r: "filter (rooted exampleMessages) exampleMessages =
      [msg ''r'' None, msg ''a'' (Some ''r''), msg ''x'' (Some ''r''), msg ''b'' (Some ''a'')]"
    by (simp add: exampleMessages_def rooted_def msg_def upt_conv_Cons)
  have o: "length exampleMessages -
      length (filter (orphaned exampleMessages) exampleMessages) = 4"
    by (simp add: exampleMessages_def orphaned_def msg_def)
  from buildConversationTree_count [OF d l] obtain forest where
    "buildConversationTree 5 exampleMessages = Some forest"
    "countForest forest = length (filter (rooted exampleMessages) exampleMessages)"
    "set (forestMessages forest) = set (filter (rooted exampleMessages) exampleMessages)"
    "distinct (forestMessages forest)"
    by blast
  with d r o show ?thesis by auto
qed

text \<open>
  C2 as stated fails: \<open>a\<close> is an orphan and \<open>b\<close> is its child; the forest is empty,
  the length less the orphans is 1.
\<close>

theorem buildConversationTree_orphan_child:
  "map_option countForest
     (buildConversationTree 2 [msg ''a'' (Some ''x''), msg ''b'' (Some ''a'')]) = Some 0 \<and>
   length [msg ''a'' (Some ''x''), msg ''b'' (Some ''a'')] -
   length (filter (orphaned [msg ''a'' (Some ''x''), msg ''b'' (Some ''a'')])
     [msg ''a'' (Some ''x''), msg ''b'' (Some ''a'')]) = 1"
  by (simp add: buildConversationTree_def buildChildrenMap_def addChild_def childrenOf_def
      countForest_def orphaned_def msg_def)

end
